theory Spec2Isabelle
  imports Main
begin

section \<open>Command-execution interception: \<^verbatim>\<open>sudo_intercept.c\<close>\<close>

text \<open>
  C strings are modelled as \<^typ>\<open>string\<close> (the bytes before the terminating NUL), a
  NULL pointer as \<^term>\<open>None\<close>.  The platform's \<^verbatim>\<open>errno\<close> is a value carried in the
  result of each function that sets it.
\<close>

datatype errno = ENOENT | EACCES | ELOOP | ENOTDIR | ENAMETOOLONG | ENOEXEC | ENOMEM | EIO
  | EOTHER nat

subsection \<open>\<^verbatim>\<open>resolve_path\<close>\<close>

text \<open>
  The \<^verbatim>\<open>for\<close> loop over \<^verbatim>\<open>environ\<close>: the first entry that starts with \<^verbatim>\<open>PATH=\<close>,
  with that prefix skipped; NULL when there is none.
\<close>

fun find_PATH :: "string list \<Rightarrow> string option" where
  "find_PATH [] = None"
| "find_PATH (cp # p) =
     (if take 5 cp = ''PATH='' then Some (drop 5 cp) else find_PATH p)"

text \<open>
  The candidate built by \<^verbatim>\<open>snprintf\<close> for one PATH component: an empty component
  is the same as \<^verbatim>\<open>.\<close>.
\<close>

definition candidate :: "string \<Rightarrow> string \<Rightarrow> string" where
  "candidate cmnd dir = (if dir = [] then ''./'' @ cmnd else dir @ ''/'' @ cmnd)"

text \<open>
  The \<^verbatim>\<open>while (cp < endp)\<close> loop.  \<open>cp\<close> is the part of the PATH value not yet scanned,
  \<open>stat\<close> the file system (\<open>None\<close>: \<^verbatim>\<open>stat\<close> returns 0, \<open>Some e\<close>: it fails with
  \<^verbatim>\<open>errno\<close> \<open>e\<close>), \<open>PATH_MAX\<close> the size of the local buffer \<^verbatim>\<open>path\<close> and \<open>out_size\<close>
  the size of the caller's buffer.  The result is \<open>Inr out_cmnd\<close> when the function returns
  true and \<open>Inl errno\<close> when it returns false.
\<close>

function path_loop ::
  "(string \<Rightarrow> errno option) \<Rightarrow> nat \<Rightarrow> nat \<Rightarrow> string \<Rightarrow> string \<Rightarrow> errno \<Rightarrow> errno + string"
where
  "path_loop stat PATH_MAX out_size cmnd cp errval =
     (if cp = [] then Inl errval
      else
        let dir = takeWhile (\<lambda>c. c \<noteq> CHR '':'') cp;
            path = candidate cmnd dir;
            cp' = drop (Suc (length dir)) cp
        in if PATH_MAX \<le> length path
           then path_loop stat PATH_MAX out_size cmnd cp' ENAMETOOLONG
           else (case stat path of
                   None \<Rightarrow>
                     if out_size \<le> length path then Inl ENAMETOOLONG else Inr path
                 | Some e \<Rightarrow>
                     if e = EACCES then path_loop stat PATH_MAX out_size cmnd cp' EACCES
                     else if e = ELOOP \<or> e = ENOTDIR \<or> e = ENOENT
                     then path_loop stat PATH_MAX out_size cmnd cp' errval
                     else Inl e))"
  by pat_completeness auto
termination
  by (relation "measure (\<lambda>(stat, pm, os, cmnd, cp, errval). length cp)") auto

declare path_loop.simps [simp del]

definition resolve_path ::
  "string list \<Rightarrow> (string \<Rightarrow> errno option) \<Rightarrow> nat \<Rightarrow> string \<Rightarrow> nat \<Rightarrow> errno + string"
where
  "resolve_path environ stat PATH_MAX cmnd out_size =
     (case find_PATH environ of
        None \<Rightarrow> Inl ENOENT
      | Some cp \<Rightarrow> path_loop stat PATH_MAX out_size cmnd cp ENOENT)"

subsection \<open>\<^verbatim>\<open>exec_wrapper\<close>\<close>

text \<open>
  Objects that the function compares by pointer carry their address: an object is a pair
  of its address and its content, a pointer is an optional object (\<open>None\<close> is NULL).
  \<open>Ext n\<close> are the addresses of objects owned by the caller or returned by the policy
  oracle, \<open>Cmnd_buf\<close> is the local buffer \<^verbatim>\<open>cmnd_buf\<close> and \<open>Shargv\<close> the array
  allocated for the shell fallback.
\<close>

datatype addr = Ext nat | Cmnd_buf | Shargv

type_synonym 'a obj = "addr \<times> 'a"
type_synonym 'a ptr = "'a obj option"

text \<open>
  An argument list or environment is the list of strings before the terminating NULL;
  \<open>slots_of\<close> is the array in memory, the NULL included.
\<close>

definition slots_of :: "string list \<Rightarrow> string option list" where
  "slots_of xs = map Some xs @ [None]"

text \<open>What \<^verbatim>\<open>command_allowed\<close> returns and where it leaves its three output pointers.\<close>

record verdict =
  allowed :: bool
  ncmnd :: "string ptr"
  nargv :: "string list ptr"
  nenvp :: "string list ptr"

text \<open>One invocation of the real \<^verbatim>\<open>execve\<close>: its path, its argument array, its environment.\<close>

record exec_call =
  e_path :: "string option"
  e_argv :: "string option list option"
  e_envp :: "string list ptr"

text \<open>
  Everything outside the function: the live environment, the file system, the size of the
  path buffers, the real \<^verbatim>\<open>execve\<close> found by the symbol lookup (\<open>None\<close>: not found;
  applied to a call it yields \<open>None\<close> when the process image is replaced and \<open>Some e\<close>
  when it fails with \<^verbatim>\<open>errno\<close> \<open>e\<close>), the policy oracle, whether \<^verbatim>\<open>reallocarray\<close>
  succeeds, and the path of the system shell.
\<close>

record world =
  environ :: "string list obj"
  stat :: "string \<Rightarrow> errno option"
  PATH_MAX :: nat
  fn :: "(exec_call \<Rightarrow> errno option) option"
  command_allowed :: "string obj \<Rightarrow> string list obj \<Rightarrow> string list obj \<Rightarrow> verdict"
  shargv_alloc :: bool
  PATH_SUDO_BSHELL :: string

datatype outcome = Returns int errno | Replaced | Undefined

text \<open>
  What a call did: how it ended, the arguments of its call to the oracle (if it made one),
  its invocations of the real \<^verbatim>\<open>execve\<close> in order, the blocks it allocated and the
  addresses it passed to \<^verbatim>\<open>free\<close>.
\<close>

record result =
  outcome :: outcome
  asked :: "(string obj \<times> string list obj \<times> string list obj) option"
  execs :: "exec_call list"
  allocated :: "addr list"
  freed :: "addr list"

text \<open>\<^verbatim>\<open>if (n != orig) free(n);\<close> where \<^verbatim>\<open>free(NULL)\<close> does nothing.\<close>

definition free_distinct :: "'a ptr \<Rightarrow> 'a obj \<Rightarrow> addr list" where
  "free_distinct n orig =
     (case n of None \<Rightarrow> [] | Some (a, _) \<Rightarrow> if a \<noteq> fst orig then [a] else [])"

text \<open>
  \<^verbatim>\<open>memcpy\<close> of \<open>n\<close> slots that start at slot \<open>off\<close> of the array \<open>src\<close>: undefined
  (\<open>None\<close>) when \<open>src\<close> is NULL or a slot read lies outside the array.
\<close>

definition memcpy_slots ::
  "string option list option \<Rightarrow> nat \<Rightarrow> nat \<Rightarrow> string option list option" where
  "memcpy_slots src off n =
     (case src of
        None \<Rightarrow> None
      | Some xs \<Rightarrow> if off + n \<le> length xs then Some (take n (drop off xs)) else None)"

text \<open>
  The argument array of the shell fallback: \<open>argc\<close> counts the entries of \<^verbatim>\<open>argv\<close>,
  \<open>argc + 2\<close> slots are allocated, slot 0 is \<^verbatim>\<open>"sh"\<close>, slot 1 is \<^verbatim>\<open>ncmnd\<close> and the
  other \<open>argc\<close> slots are copied from \<^verbatim>\<open>nargv + 1\<close>.
\<close>

definition shell_argv ::
  "string list \<Rightarrow> string option \<Rightarrow> string option list option \<Rightarrow> string option list option"
where
  "shell_argv argv ncmnd_str nargv_slots =
     (let argc = length argv
      in map_option (\<lambda>copied. Some ''sh'' # ncmnd_str # copied)
           (memcpy_slots nargv_slots 1 argc))"

text \<open>
  Lines 137--146: the command as the rest of the function uses it.  A name without a slash
  fails with \<^verbatim>\<open>ENOENT\<close> unless the variant searches PATH, and is then resolved into
  \<^verbatim>\<open>cmnd_buf\<close>; the failure of \<^verbatim>\<open>resolve_path\<close> leaves its \<^verbatim>\<open>errno\<close>.
\<close>

definition command_path :: "world \<Rightarrow> string obj \<Rightarrow> bool \<Rightarrow> errno + string obj" where
  "command_path w cmnd is_execvp =
     (if CHR ''/'' \<notin> set (snd cmnd)
      then (if \<not> is_execvp then Inl ENOENT
            else (case resolve_path (snd (environ w)) (stat w) (PATH_MAX w) (snd cmnd)
                         (PATH_MAX w) of
                    Inl e \<Rightarrow> Inl e
                  | Inr buf \<Rightarrow> Inr (Cmnd_buf, buf)))
      else Inr cmnd)"

text \<open>
  Lines 161--179 and the frees that follow them: the branch taken when the oracle allows
  the command.  \<open>q\<close> is the oracle call already made and \<open>frees\<close> what lines 183--188
  free.  A real \<^verbatim>\<open>execve\<close> that succeeds does not return.  When the array for the shell
  fallback cannot be allocated the function returns at once.
\<close>

definition exec_allowed ::
  "world \<Rightarrow> (exec_call \<Rightarrow> errno option) \<Rightarrow> verdict \<Rightarrow> string list obj \<Rightarrow> bool
   \<Rightarrow> (string obj \<times> string list obj \<times> string list obj) option \<Rightarrow> addr list \<Rightarrow> result" where
  "exec_allowed w real v argv is_execvp q frees =
     (let call1 = \<lparr>e_path = map_option snd (ncmnd v),
                   e_argv = map_option (\<lambda>a. slots_of (snd a)) (nargv v),
                   e_envp = nenvp v\<rparr>
      in (case real call1 of
            None \<Rightarrow>
              \<lparr>outcome = Replaced, asked = q, execs = [call1], allocated = [], freed = []\<rparr>
          | Some e \<Rightarrow>
              if e = ENOEXEC \<and> is_execvp then
                if \<not> shargv_alloc w then
                  \<lparr>outcome = Returns (- 1) ENOMEM, asked = q, execs = [call1],
                   allocated = [], freed = []\<rparr>
                else
                  (case shell_argv (snd argv) (e_path call1) (e_argv call1) of
                     None \<Rightarrow>
                       \<lparr>outcome = Undefined, asked = q, execs = [call1],
                        allocated = [Shargv], freed = []\<rparr>
                   | Some shargv \<Rightarrow>
                       let call2 = \<lparr>e_path = Some (PATH_SUDO_BSHELL w),
                                    e_argv = Some shargv, e_envp = nenvp v\<rparr>
                       in (case real call2 of
                             None \<Rightarrow>
                               \<lparr>outcome = Replaced, asked = q, execs = [call1, call2],
                                allocated = [Shargv], freed = []\<rparr>
                           | Some e2 \<Rightarrow>
                               \<lparr>outcome = Returns (- 1) e2, asked = q,
                                execs = [call1, call2], allocated = [Shargv],
                                freed = Shargv # frees\<rparr>))
              else
                \<lparr>outcome = Returns (- 1) e, asked = q, execs = [call1], allocated = [],
                 freed = frees\<rparr>))"

definition exec_wrapper ::
  "world \<Rightarrow> string obj \<Rightarrow> string list obj \<Rightarrow> string list obj \<Rightarrow> bool \<Rightarrow> result" where
  "exec_wrapper w cmnd0 argv envp is_execvp =
     (case command_path w cmnd0 is_execvp of
        Inl e \<Rightarrow>
          \<lparr>outcome = Returns (- 1) e, asked = None, execs = [], allocated = [], freed = []\<rparr>
      | Inr cmnd \<Rightarrow>
          (case fn w of
             None \<Rightarrow>
               \<lparr>outcome = Returns (- 1) EACCES, asked = None, execs = [], allocated = [],
                freed = []\<rparr>
           | Some real \<Rightarrow>
               let v = command_allowed w cmnd argv envp;
                   q = Some (cmnd, argv, envp);
                   frees = free_distinct (ncmnd v) cmnd @ free_distinct (nargv v) argv
                           @ free_distinct (nenvp v) envp
               in if allowed v then exec_allowed w real v argv is_execvp q frees
                  else
                    \<lparr>outcome = Returns (- 1) EACCES, asked = q, execs = [], allocated = [],
                     freed = frees\<rparr>))"

subsection \<open>The replacement entry points\<close>

text \<open>
  \<^verbatim>\<open>execve\<close> and the interposed \<^verbatim>\<open>my_execve\<close> have the same body; so have
  \<^verbatim>\<open>execvpe\<close> and \<^verbatim>\<open>my_execvpe\<close>, \<^verbatim>\<open>execvp\<close> and \<^verbatim>\<open>my_execvp\<close>.
\<close>

definition execve :: "world \<Rightarrow> string obj \<Rightarrow> string list obj \<Rightarrow> string list obj \<Rightarrow> result" where
  "execve w cmnd argv envp = exec_wrapper w cmnd argv (environ w) False"

definition my_execve :: "world \<Rightarrow> string obj \<Rightarrow> string list obj \<Rightarrow> string list obj \<Rightarrow> result" where
  "my_execve w cmnd argv envp = exec_wrapper w cmnd argv (environ w) False"

definition execvpe :: "world \<Rightarrow> string obj \<Rightarrow> string list obj \<Rightarrow> string list obj \<Rightarrow> result" where
  "execvpe w cmnd argv envp = exec_wrapper w cmnd argv envp True"

definition execvp :: "world \<Rightarrow> string obj \<Rightarrow> string list obj \<Rightarrow> result" where
  "execvp w cmnd argv = exec_wrapper w cmnd argv (environ w) True"

section \<open>Preload environment builder: \<^verbatim>\<open>exec_preload.c\<close>\<close>

text \<open>
  What \<^verbatim>\<open>config.h\<close> and the utility library provide: the name of the preload variable
  and the delimiter of its value, the optional macros \<^verbatim>\<open>RTLD_PRELOAD_ENABLE_VAR\<close>,
  \<^verbatim>\<open>RTLD_PRELOAD_DEFAULT\<close> and \<^verbatim>\<open>_PATH_ASAN_LIB\<close> (\<open>None\<close>: not defined), and
  \<^verbatim>\<open>sudo_strtonum\<close>, applied to the string, the minimum and the maximum (\<open>Some n\<close>: the
  number \<open>n\<close> with \<^verbatim>\<open>errstr\<close> left NULL, \<open>None\<close>: \<^verbatim>\<open>errstr\<close> set).
\<close>

record config =
  RTLD_PRELOAD_VAR :: string
  RTLD_PRELOAD_DELIM :: char
  RTLD_PRELOAD_ENABLE_VAR :: "string option"
  RTLD_PRELOAD_DEFAULT :: "string option"
  PATH_ASAN_LIB :: "string option"
  sudo_strtonum :: "string \<Rightarrow> int \<Rightarrow> int \<Rightarrow> int option"

definition INT_MAX :: int where
  "INT_MAX = 2147483647"

text \<open>
  The four allocations of a call: \<^verbatim>\<open>dso_buf\<close>, \<^verbatim>\<open>nenvp\<close>, \<^verbatim>\<open>preload\<close> and
  \<^verbatim>\<open>fdstr\<close>.  A pointer to a string is the string together with where it lives: \<open>Str\<close>
  for memory that the call did not allocate (the strings of the caller, string literals),
  \<open>Own b\<close> for the block \<open>b\<close> allocated by the call.  A slot of an environment array
  holds NULL, a pointer, or nothing yet (\<open>Uninit\<close>: memory from \<^verbatim>\<open>reallocarray\<close> that was
  never written).
\<close>

datatype block = Dso_buf | Nenvp | Preload | Fdstr

datatype cstr = Str string | Own block string

fun str_of :: "cstr \<Rightarrow> string" where
  "str_of (Str s) = s"
| "str_of (Own b s) = s"

datatype slot = Uninit | Null | Ptr cstr

text \<open>\<^verbatim>\<open>strncmp(e, p, strlen(p)) == 0\<close> for strings without NUL.\<close>

definition starts_with :: "string \<Rightarrow> string \<Rightarrow> bool" where
  "starts_with p e = (take (length p) e = p)"

definition is_preload :: "config \<Rightarrow> string \<Rightarrow> bool" where
  "is_preload cfg e = starts_with (RTLD_PRELOAD_VAR cfg @ ''='') e"

definition is_intercept_fd :: "string \<Rightarrow> bool" where
  "is_intercept_fd e = starts_with ''SUDO_INTERCEPT_FD='' e"

definition is_enable :: "config \<Rightarrow> string \<Rightarrow> bool" where
  "is_enable cfg e =
     (case RTLD_PRELOAD_ENABLE_VAR cfg of
        None \<Rightarrow> False
      | Some var \<Rightarrow> starts_with (var @ ''='') e)"

text \<open>
  Lines 87--90: \<^verbatim>\<open>dso_file\<close> is already first in the value \<open>cp\<close> of the preload
  variable.
\<close>

definition dso_first :: "config \<Rightarrow> string \<Rightarrow> string \<Rightarrow> bool" where
  "dso_first cfg dso_file cp =
     (take (length dso_file) cp = dso_file \<and>
      (length cp = length dso_file \<or>
       (length dso_file < length cp \<and> cp ! length dso_file = RTLD_PRELOAD_DELIM cfg)))"

text \<open>\<^verbatim>\<open>%d\<close> of \<^verbatim>\<open>asprintf\<close>.\<close>

fun digits_of :: "nat \<Rightarrow> string" where
  "digits_of n =
     (if n < 10 then [char_of (48 + n)]
      else digits_of (n div 10) @ [char_of (48 + n mod 10)])"

declare digits_of.simps [simp del]

definition show_int :: "int \<Rightarrow> string" where
  "show_int i = (if i < 0 then CHR ''-'' # digits_of (nat (- i)) else digits_of (nat i))"

text \<open>
  The local variables of \<^verbatim>\<open>sudo_preload_dso\<close> and the memory they refer to:
  \<open>caller_envp\<close> is the array of the caller, \<open>new_envp\<close> the array \<^verbatim>\<open>nenvp\<close> (\<open>None\<close>
  while it is NULL).  The local pointer \<^verbatim>\<open>envp\<close> is the array of the caller until line
  148 and \<^verbatim>\<open>nenvp\<close> from there on.  The indices are \<open>None\<close> for -1.  \<open>live\<close> are the
  blocks allocated and not freed.  \<^verbatim>\<open>env_len\<close> is a natural number: the model does not
  follow the overflow of an \<^verbatim>\<open>int\<close> on an array of more than \<^verbatim>\<open>INT_MAX\<close> entries.
\<close>

record locals =
  caller_envp :: "slot list"
  new_envp :: "slot list option"
  env_len :: nat
  preload_idx :: "nat option"
  intercept_idx :: "nat option"
  fd_present :: bool
  dso_present :: bool
  dso_enabled :: bool
  live :: "block list"

text \<open>
  The removal loop \<^verbatim>\<open>for (i = env_len; envp[i] != NULL; i++) envp[i] = envp[i + 1];\<close>
  on the array of the caller.  The result is \<open>None\<close> when a slot outside the array or a
  slot never written is read.
\<close>

function remove_dup :: "slot list \<Rightarrow> nat \<Rightarrow> slot list option" where
  "remove_dup envp i =
     (if length envp \<le> i then None
      else (case envp ! i of
              Null \<Rightarrow> Some envp
            | Uninit \<Rightarrow> None
            | Ptr p \<Rightarrow>
                if length envp \<le> i + 1 then None
                else remove_dup (envp[i := envp ! (i + 1)]) (i + 1)))"
  by pat_completeness auto
termination
  by (relation "measure (\<lambda>(envp, i). length envp - i)") auto

declare remove_dup.simps [simp del]

lemma length_remove_dup: "remove_dup envp i = Some envp' \<Longrightarrow> length envp' = length envp"
proof (induction envp i rule: remove_dup.induct)
  case (1 envp i)
  then show ?case
    by (subst (asm) (2) remove_dup.simps) (auto split: if_splits slot.splits)
qed

text \<open>
  Lines 77--131: the loop that counts the entries, looks for the managed variables and
  removes their duplicates.  \<open>dso_file\<close> is the path after lines 59--68.
\<close>

function scan_env :: "config \<Rightarrow> string \<Rightarrow> int \<Rightarrow> locals \<Rightarrow> locals option" where
  "scan_env cfg dso_file intercept_fd l =
     (if length (caller_envp l) \<le> env_len l then None
      else (case caller_envp l ! env_len l of
              Null \<Rightarrow> Some l
            | Uninit \<Rightarrow> None
            | Ptr p \<Rightarrow>
                if is_preload cfg (str_of p) then
                  (case preload_idx l of
                     None \<Rightarrow>
                       scan_env cfg dso_file intercept_fd
                         (l\<lparr>dso_present :=
                               (if dso_first cfg dso_file
                                     (drop (length (RTLD_PRELOAD_VAR cfg) + 1) (str_of p))
                                then True else dso_present l),
                            preload_idx := Some (env_len l),
                            env_len := env_len l + 1\<rparr>)
                   | Some _ \<Rightarrow>
                       (case remove_dup (caller_envp l) (env_len l) of
                          None \<Rightarrow> None
                        | Some envp' \<Rightarrow>
                            scan_env cfg dso_file intercept_fd
                              (l\<lparr>caller_envp := envp', env_len := env_len l + 1\<rparr>)))
                else if intercept_fd \<noteq> - 1 \<and> is_intercept_fd (str_of p) then
                  (case intercept_idx l of
                     None \<Rightarrow>
                       scan_env cfg dso_file intercept_fd
                         (l\<lparr>fd_present :=
                               (if sudo_strtonum cfg (drop 18 (str_of p)) 0 INT_MAX
                                     = Some intercept_fd
                                then True else fd_present l),
                            intercept_idx := Some (env_len l),
                            env_len := env_len l + 1\<rparr>)
                   | Some _ \<Rightarrow>
                       (case remove_dup (caller_envp l) (env_len l) of
                          None \<Rightarrow> None
                        | Some envp' \<Rightarrow>
                            scan_env cfg dso_file intercept_fd
                              (l\<lparr>caller_envp := envp', env_len := env_len l + 1\<rparr>)))
                else if is_enable cfg (str_of p) then
                  scan_env cfg dso_file intercept_fd
                    (l\<lparr>dso_enabled := True, env_len := env_len l + 1\<rparr>)
                else scan_env cfg dso_file intercept_fd (l\<lparr>env_len := env_len l + 1\<rparr>)))"
  by pat_completeness auto
termination
  by (relation "measure (\<lambda>(cfg, dso_file, intercept_fd, l). length (caller_envp l) - env_len l)")
    (auto dest: length_remove_dup)

declare scan_env.simps [simp del]

text \<open>\<^verbatim>\<open>envp[i] = v\<close> after line 148; \<open>None\<close> when the slot is outside the array.\<close>

definition put_envp :: "locals \<Rightarrow> nat \<Rightarrow> slot \<Rightarrow> locals option" where
  "put_envp l i v =
     (case new_envp l of
        Some a \<Rightarrow> if i < length a then Some (l\<lparr>new_envp := Some (a[i := v])\<rparr>) else None
      | None \<Rightarrow>
          if i < length (caller_envp l)
          then Some (l\<lparr>caller_envp := (caller_envp l)[i := v]\<rparr>) else None)"

text \<open>\<^verbatim>\<open>envp[env_len++] = v; envp[env_len] = NULL;\<close>\<close>

definition append_envp :: "locals \<Rightarrow> slot \<Rightarrow> locals option" where
  "append_envp l v =
     (case put_envp l (env_len l) v of
        None \<Rightarrow> None
      | Some l' \<Rightarrow> put_envp (l'\<lparr>env_len := env_len l + 1\<rparr>) (env_len l + 1) Null)"

text \<open>\<^verbatim>\<open>envp[i]\<close> read as a string; \<open>None\<close> when the slot holds no string.\<close>

definition get_envp :: "locals \<Rightarrow> nat \<Rightarrow> string option" where
  "get_envp l i =
     (let a = (case new_envp l of Some a \<Rightarrow> a | None \<Rightarrow> caller_envp l)
      in if i < length a then (case a ! i of Ptr p \<Rightarrow> Some (str_of p) | _ \<Rightarrow> None) else None)"

text \<open>
  What a call leaves: the pointer it returns (NULL, the array of the caller, or the new
  array), the array of the caller as it is now, the new array if it is still allocated, and
  the blocks still allocated.
\<close>

datatype returned = Failure | Caller_array | New_array

record preload_result =
  returned :: returned
  caller_array :: "slot list"
  new_array :: "slot list option"
  still_allocated :: "block list"

text \<open>The label \<^verbatim>\<open>oom\<close>: \<^verbatim>\<open>dso_buf\<close>, \<^verbatim>\<open>preload\<close> and \<^verbatim>\<open>nenvp\<close> are freed.\<close>

definition oom :: "locals \<Rightarrow> preload_result" where
  "oom l =
     \<lparr>returned = Failure, caller_array = caller_envp l, new_array = None,
      still_allocated = filter (\<lambda>b. b \<notin> {Dso_buf, Preload, Nenvp}) (live l)\<rparr>"

text \<open>The return of line 202, after \<^verbatim>\<open>dso_buf\<close> is freed.\<close>

definition finish :: "locals \<Rightarrow> preload_result" where
  "finish l =
     \<lparr>returned = (case new_envp l of None \<Rightarrow> Caller_array | Some _ \<Rightarrow> New_array),
      caller_array = caller_envp l, new_array = new_envp l,
      still_allocated = filter (\<lambda>b. b \<noteq> Dso_buf) (live l)\<rparr>"

text \<open>
  Lines 184--197: the entry for the descriptor.  \<open>alloc\<close> tells which allocations
  succeed.
\<close>

definition add_intercept_fd :: "(block \<Rightarrow> bool) \<Rightarrow> int \<Rightarrow> locals \<Rightarrow> preload_result option" where
  "add_intercept_fd alloc intercept_fd l =
     (if \<not> fd_present l \<and> intercept_fd \<noteq> - 1 then
        if \<not> alloc Fdstr then Some (oom l)
        else
          let fdstr = Ptr (Own Fdstr (''SUDO_INTERCEPT_FD='' @ show_int intercept_fd));
              l1 = l\<lparr>live := Fdstr # live l\<rparr>
          in (case intercept_idx l of
                Some i \<Rightarrow> map_option finish (put_envp l1 i fdstr)
              | None \<Rightarrow> map_option finish (append_envp l1 fdstr))
      else Some (finish l))"

text \<open>Lines 178--183: the entry that enables preloading, a string literal.\<close>

definition add_enable :: "config \<Rightarrow> locals \<Rightarrow> locals option" where
  "add_enable cfg l =
     (case RTLD_PRELOAD_ENABLE_VAR cfg of
        None \<Rightarrow> Some l
      | Some var \<Rightarrow>
          if \<not> dso_enabled l then append_envp l (Ptr (Str (var @ ''=''))) else Some l)"

text \<open>
  Lines 152--177: the entry of the preload variable.  The result is \<open>Inl\<close> of the locals at
  the jump to \<^verbatim>\<open>oom\<close>, or \<open>Inr\<close> of the locals to go on with; \<open>None\<close> is a read or write
  outside an array.  \<^verbatim>\<open>sudo_new_key_val\<close> is not among the sources; it allocates
  \<^verbatim>\<open>key=value\<close>.
\<close>

definition add_preload ::
  "config \<Rightarrow> (block \<Rightarrow> bool) \<Rightarrow> string \<Rightarrow> locals \<Rightarrow> (locals + locals) option" where
  "add_preload cfg alloc dso_file l =
     (if \<not> dso_present l then
        (case preload_idx l of
           None \<Rightarrow>
             if \<not> alloc Preload then Some (Inl l)
             else
               let preload =
                     (case RTLD_PRELOAD_DEFAULT cfg of
                        Some dflt \<Rightarrow>
                          RTLD_PRELOAD_VAR cfg @ ''='' @ dso_file
                            @ [RTLD_PRELOAD_DELIM cfg] @ dflt
                      | None \<Rightarrow> RTLD_PRELOAD_VAR cfg @ ''='' @ dso_file)
               in map_option Inr
                    (append_envp (l\<lparr>live := Preload # live l\<rparr>) (Ptr (Own Preload preload)))
         | Some i \<Rightarrow>
             (case get_envp l i of
                None \<Rightarrow> None
              | Some old \<Rightarrow>
                  if \<not> alloc Preload then Some (Inl l)
                  else
                    let old_val = drop (length (RTLD_PRELOAD_VAR cfg) + 1) old;
                        preload = RTLD_PRELOAD_VAR cfg @ ''='' @ dso_file
                                    @ [RTLD_PRELOAD_DELIM cfg] @ old_val
                    in map_option Inr
                         (put_envp (l\<lparr>live := Preload # live l\<rparr>) i
                            (Ptr (Own Preload preload)))))
      else Some (Inr l))"

text \<open>
  Lines 138--149: the new array, when an entry may have to be added.  \<open>Inl\<close> is the return
  of line 144, which frees nothing.
\<close>

definition copy_envp :: "(block \<Rightarrow> bool) \<Rightarrow> locals \<Rightarrow> (preload_result + locals) option" where
  "copy_envp alloc l =
     (if preload_idx l = None \<or> \<not> dso_enabled l \<or> intercept_idx l = None then
        let env_size = env_len l + 1 + (if preload_idx l = None then 1 else 0)
                         + (if dso_enabled l then 1 else 0)
                         + (if intercept_idx l = None then 1 else 0)
        in if \<not> alloc Nenvp then
             Some (Inl \<lparr>returned = Failure, caller_array = caller_envp l, new_array = None,
                        still_allocated = live l\<rparr>)
           else if length (caller_envp l) < env_len l then None
           else
             Some (Inr (l\<lparr>new_envp :=
                             Some (take (env_len l) (caller_envp l) @ [Null]
                                   @ replicate (env_size - env_len l - 1) Uninit),
                           live := Nenvp # live l\<rparr>))
      else Some (Inr l))"

text \<open>
  The function: its locals at entry, then its body.  \<open>envp\<close> is the array of the caller,
  all its slots; the result is \<open>None\<close> when the call reads or writes outside an array or
  reads a slot never written.
\<close>

definition initial :: "config \<Rightarrow> slot list \<Rightarrow> locals" where
  "initial cfg envp =
     \<lparr>caller_envp = envp, new_envp = None, env_len = 0, preload_idx = None,
      intercept_idx = None, fd_present = False, dso_present = False,
      dso_enabled = (RTLD_PRELOAD_ENABLE_VAR cfg = None), live = []\<rparr>"

definition sudo_preload_dso ::
  "config \<Rightarrow> (block \<Rightarrow> bool) \<Rightarrow> slot list \<Rightarrow> string \<Rightarrow> int \<Rightarrow> preload_result option" where
  "sudo_preload_dso cfg alloc envp dso_file0 intercept_fd =
     (case (case PATH_ASAN_LIB cfg of
              None \<Rightarrow> Inr (dso_file0, initial cfg envp)
            | Some asan \<Rightarrow>
                if \<not> alloc Dso_buf then Inl (oom (initial cfg envp))
                else Inr (asan @ [RTLD_PRELOAD_DELIM cfg] @ dso_file0,
                          (initial cfg envp)\<lparr>live := [Dso_buf]\<rparr>)) of
        Inl r \<Rightarrow> Some r
      | Inr (dso_file, l1) \<Rightarrow>
          (case scan_env cfg dso_file intercept_fd l1 of
             None \<Rightarrow> None
           | Some l2 \<Rightarrow>
               (case copy_envp alloc l2 of
                  None \<Rightarrow> None
                | Some (Inl r) \<Rightarrow> Some r
                | Some (Inr l3) \<Rightarrow>
                    (case add_preload cfg alloc dso_file l3 of
                       None \<Rightarrow> None
                     | Some (Inl l4) \<Rightarrow> Some (oom l4)
                     | Some (Inr l4) \<Rightarrow>
                         (case add_enable cfg l4 of
                            None \<Rightarrow> None
                          | Some l5 \<Rightarrow> add_intercept_fd alloc intercept_fd l5)))))"

section \<open>Notions used to state the properties of \<^verbatim>\<open>resolve_path\<close>\<close>

text \<open>
  The PATH components in their declared order, split the way the loop of
  \<^verbatim>\<open>resolve_path\<close> splits them: a component ends at the next colon or at the end of the
  value, and nothing follows a trailing colon.
\<close>

function path_components :: "string \<Rightarrow> string list" where
  "path_components cp =
     (if cp = [] then []
      else let dir = takeWhile (\<lambda>c. c \<noteq> CHR '':'') cp
           in dir # path_components (drop (Suc (length dir)) cp))"
  by pat_completeness auto
termination
  by (relation "measure length") auto

declare path_components.simps [simp del]

text \<open>The body of the loop, run over a list of components.\<close>

fun try_dirs ::
  "(string \<Rightarrow> errno option) \<Rightarrow> nat \<Rightarrow> nat \<Rightarrow> string \<Rightarrow> string list \<Rightarrow> errno \<Rightarrow> errno + string"
where
  "try_dirs st pmax out_size cmnd [] errval = Inl errval"
| "try_dirs st pmax out_size cmnd (dir # ds) errval =
     (if pmax \<le> length (candidate cmnd dir)
      then try_dirs st pmax out_size cmnd ds ENAMETOOLONG
      else (case st (candidate cmnd dir) of
              None \<Rightarrow>
                if out_size \<le> length (candidate cmnd dir) then Inl ENAMETOOLONG
                else Inr (candidate cmnd dir)
            | Some e \<Rightarrow>
                if e = EACCES then try_dirs st pmax out_size cmnd ds EACCES
                else if e = ELOOP \<or> e = ENOTDIR \<or> e = ENOENT
                then try_dirs st pmax out_size cmnd ds errval
                else Inl e))"

text \<open>
  A component is passed over when its candidate is too long for the buffer or \<^verbatim>\<open>stat\<close>
  fails on it with one of the four errors after which the loop goes on.  Of these, a too
  long candidate and \<^verbatim>\<open>EACCES\<close> are remembered in \<^verbatim>\<open>errval\<close>; the value left there is
  that of the last such component.
\<close>

definition too_long :: "nat \<Rightarrow> string \<Rightarrow> string \<Rightarrow> bool" where
  "too_long pmax cmnd dir = (pmax \<le> length (candidate cmnd dir))"

definition passed_over :: "(string \<Rightarrow> errno option) \<Rightarrow> nat \<Rightarrow> string \<Rightarrow> string \<Rightarrow> bool" where
  "passed_over st pmax cmnd dir =
     (too_long pmax cmnd dir \<or>
      st (candidate cmnd dir) \<in> {Some EACCES, Some ELOOP, Some ENOTDIR, Some ENOENT})"

definition remembered :: "(string \<Rightarrow> errno option) \<Rightarrow> nat \<Rightarrow> string \<Rightarrow> string \<Rightarrow> bool" where
  "remembered st pmax cmnd dir =
     (too_long pmax cmnd dir \<or> st (candidate cmnd dir) = Some EACCES)"

definition last_remembered ::
  "(string \<Rightarrow> errno option) \<Rightarrow> nat \<Rightarrow> string \<Rightarrow> string list \<Rightarrow> errno \<Rightarrow> errno" where
  "last_remembered st pmax cmnd dirs errval =
     (case rev (filter (remembered st pmax cmnd) dirs) of
        [] \<Rightarrow> errval
      | dir # _ \<Rightarrow> if too_long pmax cmnd dir then ENAMETOOLONG else EACCES)"

text \<open>File systems of the examples.\<close>

definition fs_long :: "string \<Rightarrow> errno option" where
  "fs_long p = (if p = ''/noperm/cmd'' then Some EACCES else Some ENOENT)"




text \<open>Policy oracles and a world of the examples.\<close>

definition keep_all :: "string obj \<Rightarrow> string list obj \<Rightarrow> string list obj \<Rightarrow> verdict" where
  "keep_all c a e = \<lparr>allowed = True, ncmnd = Some c, nargv = Some a, nenvp = Some e\<rparr>"

definition deny_all :: "string obj \<Rightarrow> string list obj \<Rightarrow> string list obj \<Rightarrow> verdict" where
  "deny_all c a e = \<lparr>allowed = False, ncmnd = None, nargv = None, nenvp = None\<rparr>"

definition fresh_all :: "string obj \<Rightarrow> string list obj \<Rightarrow> string list obj \<Rightarrow> verdict" where
  "fresh_all c a e = \<lparr>allowed = True, ncmnd = Some (Ext 10, snd c), nargv = Some (Ext 11, snd a),
     nenvp = Some (Ext 12, snd e)\<rparr>"

definition rewrite_argv :: "string obj \<Rightarrow> string list obj \<Rightarrow> string list obj \<Rightarrow> verdict" where
  "rewrite_argv c a e = \<lparr>allowed = True, ncmnd = Some c, nargv = Some (Ext 11, [''script'', ''p'', ''q'']),
     nenvp = Some e\<rparr>"

text \<open>An oracle that returns an argument list of one entry.\<close>

definition shorter_argv :: "string obj \<Rightarrow> string list obj \<Rightarrow> string list obj \<Rightarrow> verdict" where
  "shorter_argv c a e = \<lparr>allowed = True, ncmnd = Some c, nargv = Some (Ext 11, [''script'']),
     nenvp = Some e\<rparr>"

definition w0 :: world where
  "w0 = \<lparr>environ = (Ext 0, [''HOME=/root'', ''PATH=/usr/bin'']),
     stat = (\<lambda>p. if p = ''/usr/bin/script'' then None else Some ENOENT),
     PATH_MAX = 4096,
     fn = Some (\<lambda>c. Some ENOEXEC),
     command_allowed = keep_all,
     shargv_alloc = True, PATH_SUDO_BSHELL = ''/bin/sh''\<rparr>"

section \<open>Notions used to state the properties of \<^verbatim>\<open>sudo_preload_dso\<close>\<close>

text \<open>
  The environment a reader finds in an array: the strings before the first NULL; \<open>None\<close>
  when the reader meets the end of the array or a slot never written first.
\<close>

fun env_of :: "slot list \<Rightarrow> string list option" where
  "env_of [] = None"
| "env_of (Uninit # a) = None"
| "env_of (Null # a) = Some []"
| "env_of (Ptr p # a) = map_option (\<lambda>es. str_of p # es) (env_of a)"

text \<open>The array that a call returned.\<close>

definition returned_array :: "preload_result \<Rightarrow> slot list option" where
  "returned_array r =
     (case returned r of
        Failure \<Rightarrow> None
      | Caller_array \<Rightarrow> Some (caller_array r)
      | New_array \<Rightarrow> new_array r)"

text \<open>
  The array of a caller that holds the environment \<open>es\<close>: the strings, the terminating
  NULL, and whatever memory \<open>rest\<close> follows.
\<close>

definition env_array :: "string list \<Rightarrow> slot list \<Rightarrow> slot list" where
  "env_array es rest = map (\<lambda>e. Ptr (Str e)) es @ Null # rest"

text \<open>
  A slot is dangling when it points into a block of the call that is no longer allocated.
\<close>

fun dangling :: "block list \<Rightarrow> slot \<Rightarrow> bool" where
  "dangling bs (Ptr (Own b s)) = (b \<notin> set bs)"
| "dangling bs _ = False"

text \<open>
  The configuration of a GNU/Linux build, with a \<^verbatim>\<open>sudo_strtonum\<close> that reads a decimal
  number: white space, an optional sign, digits up to the end of the string, and a value
  within the bounds.
\<close>

definition is_space :: "char \<Rightarrow> bool" where
  "is_space c = ((of_char c :: nat) \<in> {9, 10, 11, 12, 13, 32})"

definition digit_val :: "char \<Rightarrow> nat option" where
  "digit_val c =
     (let n = (of_char c :: nat) in if 48 \<le> n \<and> n \<le> 57 then Some (n - 48) else None)"

fun parse_nat :: "nat \<Rightarrow> string \<Rightarrow> nat option" where
  "parse_nat acc [] = Some acc"
| "parse_nat acc (c # cs) =
     (case digit_val c of None \<Rightarrow> None | Some d \<Rightarrow> parse_nat (10 * acc + d) cs)"

definition strtonum_dec :: "string \<Rightarrow> int \<Rightarrow> int \<Rightarrow> int option" where
  "strtonum_dec s lo hi =
     (let t = dropWhile is_space s;
          neg = (t \<noteq> [] \<and> hd t = CHR ''-'');
          ds = (if t \<noteq> [] \<and> (hd t = CHR ''-'' \<or> hd t = CHR ''+'') then tl t else t)
      in if ds = [] then None
         else (case parse_nat 0 ds of
                 None \<Rightarrow> None
               | Some n \<Rightarrow>
                   let v = (if neg then - int n else int n)
                   in if lo \<le> v \<and> v \<le> hi then Some v else None))"

definition linux :: config where
  "linux = \<lparr>RTLD_PRELOAD_VAR = ''LD_PRELOAD'', RTLD_PRELOAD_DELIM = CHR '':'',
            RTLD_PRELOAD_ENABLE_VAR = None, RTLD_PRELOAD_DEFAULT = None,
            PATH_ASAN_LIB = None, sudo_strtonum = strtonum_dec\<rparr>"

subsection \<open>The scan over a list\<close>

text \<open>
  What the loop of lines 77--131 does at one entry, the counter apart: the locals after an
  entry that stays, or \<open>None\<close> for a duplicate that the loop removes.
\<close>

definition note_entry :: "config \<Rightarrow> string \<Rightarrow> int \<Rightarrow> locals \<Rightarrow> string \<Rightarrow> locals option" where
  "note_entry cfg dso_file intercept_fd l e =
     (if is_preload cfg e then
        (case preload_idx l of
           None \<Rightarrow>
             Some (l\<lparr>dso_present :=
                        (if dso_first cfg dso_file (drop (length (RTLD_PRELOAD_VAR cfg) + 1) e)
                         then True else dso_present l),
                     preload_idx := Some (env_len l)\<rparr>)
         | Some _ \<Rightarrow> None)
      else if intercept_fd \<noteq> - 1 \<and> is_intercept_fd e then
        (case intercept_idx l of
           None \<Rightarrow>
             Some (l\<lparr>fd_present :=
                        (if sudo_strtonum cfg (drop 18 e) 0 INT_MAX = Some intercept_fd
                         then True else fd_present l),
                     intercept_idx := Some (env_len l)\<rparr>)
         | Some _ \<Rightarrow> None)
      else if is_enable cfg e then Some (l\<lparr>dso_enabled := True\<rparr>)
      else Some l)"

text \<open>
  The loop over the entries still to come, as a list: the entries that stay, and the locals
  at the end.  After a duplicate is removed the counter moves on, so the entry that took
  its place is not looked at; when the duplicate was the last entry the counter ends one
  past the number of entries that stay.
\<close>

fun scan_list :: "config \<Rightarrow> string \<Rightarrow> int \<Rightarrow> locals \<Rightarrow> cstr list \<Rightarrow> cstr list \<times> locals" where
  "scan_list cfg dso_file intercept_fd l [] = ([], l)"
| "scan_list cfg dso_file intercept_fd l (p # ps) =
     (case note_entry cfg dso_file intercept_fd l (str_of p) of
        Some l1 \<Rightarrow>
          (case scan_list cfg dso_file intercept_fd (l1\<lparr>env_len := env_len l + 1\<rparr>) ps of
             (ks, l') \<Rightarrow> (p # ks, l'))
      | None \<Rightarrow>
          (case ps of
             [] \<Rightarrow> ([], l\<lparr>env_len := env_len l + 1\<rparr>)
           | q # qs \<Rightarrow>
               (case scan_list cfg dso_file intercept_fd (l\<lparr>env_len := env_len l + 1\<rparr>) qs of
                  (ks, l') \<Rightarrow> (q # ks, l'))))"

text \<open>
  The entries that the loop of lines 77--131 passes without noting anything, the entries
  that it takes for the descriptor variable, and the entries of an environment that
  \<^verbatim>\<open>sudo_preload_dso\<close> does not manage.
\<close>

definition plain :: "config \<Rightarrow> int \<Rightarrow> string \<Rightarrow> bool" where
  "plain cfg intercept_fd e =
     (\<not> is_preload cfg e \<and> \<not> (intercept_fd \<noteq> - 1 \<and> is_intercept_fd e) \<and> \<not> is_enable cfg e)"

definition is_fd :: "config \<Rightarrow> int \<Rightarrow> string \<Rightarrow> bool" where
  "is_fd cfg intercept_fd e =
     (\<not> is_preload cfg e \<and> intercept_fd \<noteq> - 1 \<and> is_intercept_fd e)"

definition unmanaged :: "config \<Rightarrow> int \<Rightarrow> string \<Rightarrow> bool" where
  "unmanaged cfg intercept_fd e = (\<not> is_preload cfg e \<and> \<not> is_fd cfg intercept_fd e)"

text \<open>
  The environments on which the counter of the loop never steps over an entry that it
  should have looked at: every duplicate of a managed variable is followed by an entry
  that the loop would pass anyway (so a duplicate is neither the last entry nor followed
  by another managed entry).  \<open>sp\<close> and \<open>sf\<close> tell whether the preload variable and the
  descriptor variable were met before.
\<close>

fun slip_free :: "config \<Rightarrow> int \<Rightarrow> bool \<Rightarrow> bool \<Rightarrow> string list \<Rightarrow> bool" where
  "slip_free cfg intercept_fd sp sf [] = True"
| "slip_free cfg intercept_fd sp sf (e # es) =
     (if is_preload cfg e then
        (if sp then es \<noteq> [] \<and> plain cfg intercept_fd (hd es) \<and> slip_free cfg intercept_fd sp sf es
         else slip_free cfg intercept_fd True sf es)
      else if intercept_fd \<noteq> - 1 \<and> is_intercept_fd e then
        (if sf then es \<noteq> [] \<and> plain cfg intercept_fd (hd es) \<and> slip_free cfg intercept_fd sp sf es
         else slip_free cfg intercept_fd sp True es)
      else slip_free cfg intercept_fd sp sf es)"

text \<open>
  The scan that looks at every entry: a duplicate is dropped, every other entry stays and
  is noted.
\<close>

fun scan_dedup :: "config \<Rightarrow> string \<Rightarrow> int \<Rightarrow> locals \<Rightarrow> cstr list \<Rightarrow> cstr list \<times> locals" where
  "scan_dedup cfg dso_file intercept_fd l [] = ([], l)"
| "scan_dedup cfg dso_file intercept_fd l (p # ps) =
     (case note_entry cfg dso_file intercept_fd l (str_of p) of
        Some l1 \<Rightarrow>
          (case scan_dedup cfg dso_file intercept_fd (l1\<lparr>env_len := env_len l + 1\<rparr>) ps of
             (ks, l') \<Rightarrow> (p # ks, l'))
      | None \<Rightarrow> scan_dedup cfg dso_file intercept_fd l ps)"


subsection \<open>The entries that a call writes\<close>

text \<open>
  The value of an entry of the preload variable, the entry for the descriptor (line 187),
  and the entry of the preload variable (lines 155, 161 and 170) from the entry \<open>old\<close>
  already there, if any.
\<close>

definition val_of :: "config \<Rightarrow> string \<Rightarrow> string" where
  "val_of cfg e = drop (length (RTLD_PRELOAD_VAR cfg) + 1) e"

definition fd_entry :: "int \<Rightarrow> string" where
  "fd_entry intercept_fd = ''SUDO_INTERCEPT_FD='' @ show_int intercept_fd"

definition preload_entry :: "config \<Rightarrow> string \<Rightarrow> string option \<Rightarrow> string" where
  "preload_entry cfg dso_file old =
     (case old of
        Some e \<Rightarrow> RTLD_PRELOAD_VAR cfg @ ''='' @ dso_file @ [RTLD_PRELOAD_DELIM cfg]
                   @ drop (length (RTLD_PRELOAD_VAR cfg) + 1) e
      | None \<Rightarrow>
         (case RTLD_PRELOAD_DEFAULT cfg of
            Some dflt \<Rightarrow> RTLD_PRELOAD_VAR cfg @ ''='' @ dso_file @ [RTLD_PRELOAD_DELIM cfg] @ dflt
          | None \<Rightarrow> RTLD_PRELOAD_VAR cfg @ ''='' @ dso_file))"

text \<open>
  Lines 152--177 and lines 184--197 on the entries \<open>ks\<close> that the scan left, with the
  locals \<open>l\<close> at the end of the scan.
\<close>

definition with_preload :: "config \<Rightarrow> string \<Rightarrow> locals \<Rightarrow> cstr list \<Rightarrow> cstr list" where
  "with_preload cfg dso_file l ks =
     (if dso_present l then ks
      else (case preload_idx l of
              None \<Rightarrow> ks @ [Own Preload (preload_entry cfg dso_file None)]
            | Some i \<Rightarrow> ks[i := Own Preload (preload_entry cfg dso_file (Some (str_of (ks ! i))))]))"

definition with_fd :: "int \<Rightarrow> locals \<Rightarrow> cstr list \<Rightarrow> cstr list" where
  "with_fd intercept_fd l ks =
     (if \<not> fd_present l \<and> intercept_fd \<noteq> - 1 then
        (case intercept_idx l of
           None \<Rightarrow> ks @ [Own Fdstr (fd_entry intercept_fd)]
         | Some j \<Rightarrow> ks[j := Own Fdstr (fd_entry intercept_fd)])
      else ks)"

text \<open>
  The entry of the preload variable and the entry of the descriptor variable that a call
  on the environment \<open>es\<close> is to leave: the first occurrence decides.
\<close>

definition expected_preload :: "config \<Rightarrow> string \<Rightarrow> string list \<Rightarrow> string" where
  "expected_preload cfg dso_file es =
     (case filter (is_preload cfg) es of
        [] \<Rightarrow> preload_entry cfg dso_file None
      | first # _ \<Rightarrow>
          if dso_first cfg dso_file (val_of cfg first) then first
          else preload_entry cfg dso_file (Some first))"

definition expected_fd :: "config \<Rightarrow> int \<Rightarrow> string list \<Rightarrow> string" where
  "expected_fd cfg intercept_fd es =
     (case filter (is_fd cfg intercept_fd) es of
        [] \<Rightarrow> fd_entry intercept_fd
      | first # _ \<Rightarrow>
          if sudo_strtonum cfg (drop 18 first) 0 INT_MAX = Some intercept_fd then first
          else fd_entry intercept_fd)"

text \<open>
  A second call gets the array of the first one as the array of its caller: the blocks of
  the first call are memory of the caller now.
\<close>

definition handed_over :: "slot list \<Rightarrow> slot list" where
  "handed_over a = map (\<lambda>s. case s of Ptr p \<Rightarrow> Ptr (Str (str_of p)) | _ \<Rightarrow> s) a"

definition preload_env ::
  "config \<Rightarrow> (block \<Rightarrow> bool) \<Rightarrow> slot list \<Rightarrow> string \<Rightarrow> int \<Rightarrow> slot list option" where
  "preload_env cfg alloc envp dso_file intercept_fd =
     (case sudo_preload_dso cfg alloc envp dso_file intercept_fd of
        None \<Rightarrow> None
      | Some r \<Rightarrow> map_option handed_over (returned_array r))"

section \<open>Properties of \<^verbatim>\<open>resolve_path\<close>\<close>

lemma path_loop_try_dirs:
  "path_loop st pmax os cmnd cp ev = try_dirs st pmax os cmnd (path_components cp) ev"
proof (induction st pmax os cmnd cp ev rule: path_loop.induct)
  case (1 st pmax os cmnd cp ev)
  show ?case
  proof (cases "cp = []")
    case True
    then show ?thesis
      by (simp add: path_loop.simps [of _ _ _ _ "[]"] path_components.simps [of "[]"])
  next
    case False
    then show ?thesis
      using 1
      apply (subst path_loop.simps)
      apply (subst path_components.simps)
      apply (simp add: Let_def split: option.splits)
      done
  qed
qed

lemma last_remembered_Cons:
  "last_remembered st pmax cmnd (x # pre) ev
     = last_remembered st pmax cmnd pre
         (if too_long pmax cmnd x then ENAMETOOLONG
          else if st (candidate cmnd x) = Some EACCES then EACCES else ev)"
  by (auto simp: last_remembered_def remembered_def split: list.splits)

lemma try_dirs_passed_over:
  "\<forall>x\<in>set pre. passed_over st pmax cmnd x \<Longrightarrow>
   try_dirs st pmax os cmnd (pre @ ds) ev
     = try_dirs st pmax os cmnd ds (last_remembered st pmax cmnd pre ev)"
proof (induction pre arbitrary: ev)
  case Nil
  then show ?case by (simp add: last_remembered_def)
next
  case (Cons x pre)
  have rest: "\<forall>x\<in>set pre. passed_over st pmax cmnd x" using Cons.prems by simp
  show ?case
    using Cons.prems Cons.IH [OF rest]
    by (auto simp: last_remembered_Cons passed_over_def too_long_def)
qed

lemma takeWhile_colon:
  "CHR '':'' \<notin> set d \<Longrightarrow> takeWhile (\<lambda>c. c \<noteq> CHR '':'') (d @ CHR '':'' # rest) = d"
  by (induction d) auto

lemma takeWhile_no_colon:
  "CHR '':'' \<notin> set d \<Longrightarrow> takeWhile (\<lambda>c. c \<noteq> CHR '':'') d = d"
  by (induction d) auto

lemma path_components_colon:
  "CHR '':'' \<notin> set d \<Longrightarrow> path_components (d @ CHR '':'' # rest) = d # path_components rest"
  by (subst path_components.simps) (simp add: takeWhile_colon)

lemma path_components_last:
  "CHR '':'' \<notin> set d \<Longrightarrow> d \<noteq> [] \<Longrightarrow> path_components d = [d]"
  by (subst path_components.simps)
    (simp add: takeWhile_no_colon path_components.simps [of "[]"])





text \<open>
  C6, as stated, fails: the error is not chosen by the priority too-long over
  permission-denied.  With a first component of 4096 characters (its candidate is too
  long) and a second one on which \<^verbatim>\<open>stat\<close> fails with \<^verbatim>\<open>EACCES\<close>, the later assignment
  to \<^verbatim>\<open>errval\<close> overrides the earlier one and the call fails with \<^verbatim>\<open>EACCES\<close>.
\<close>

theorem resolve_path_priority_counterexample:
  "path_components (replicate 4096 (CHR ''a'') @ '':/noperm'')
     = [replicate 4096 (CHR ''a''), ''/noperm'']
   \<and> too_long 4096 ''cmd'' (replicate 4096 (CHR ''a''))
   \<and> fs_long (candidate ''cmd'' ''/noperm'') = Some EACCES
   \<and> resolve_path [''PATH='' @ replicate 4096 (CHR ''a'') @ '':/noperm''] fs_long 4096
        ''cmd'' 4096 = Inl EACCES"
  by (simp add: resolve_path_def path_loop_try_dirs path_components_colon
      path_components_last candidate_def fs_long_def too_long_def)

text \<open>
  C6, amended: when every PATH component is passed over (no candidate exists and no
  \<^verbatim>\<open>stat\<close> error other than \<^verbatim>\<open>EACCES\<close>, \<^verbatim>\<open>ELOOP\<close>, \<^verbatim>\<open>ENOTDIR\<close>, \<^verbatim>\<open>ENOENT\<close> occurs),
  \<^verbatim>\<open>resolve_path\<close> fails with the condition remembered last during the scan:
  \<^verbatim>\<open>ENAMETOOLONG\<close> when the last component that was too long or permission-denied was too
  long, \<^verbatim>\<open>EACCES\<close> when it was permission-denied, and \<^verbatim>\<open>ENOENT\<close> when neither
  condition was encountered.
\<close>

theorem resolve_path_failure_reason:
  assumes "find_PATH env = Some p"
    and "\<forall>x\<in>set (path_components p). passed_over st pmax cmnd x"
  shows "resolve_path env st pmax cmnd out_size
           = Inl (last_remembered st pmax cmnd (path_components p) ENOENT)
       \<and> ((\<forall>x\<in>set (path_components p). \<not> remembered st pmax cmnd x)
            \<longrightarrow> resolve_path env st pmax cmnd out_size = Inl ENOENT)"
proof -
  have r: "resolve_path env st pmax cmnd out_size
           = Inl (last_remembered st pmax cmnd (path_components p) ENOENT)"
    using assms
      try_dirs_passed_over [of "path_components p" st pmax cmnd out_size "[]" ENOENT]
    by (simp add: resolve_path_def path_loop_try_dirs)
  have "filter (remembered st pmax cmnd) (path_components p) = []"
    if "\<forall>x\<in>set (path_components p). \<not> remembered st pmax cmnd x"
    using that by (simp add: filter_empty_conv)
  then show ?thesis
    using r by (simp add: last_remembered_def)
qed

text \<open>
  The example of the specification: PATH \<^verbatim>\<open>/a:/b\<close>, neither directory holds the command
  and no permission error occurs.
\<close>

theorem resolve_path_failure_reason_witness:
  "resolve_path [''PATH=/a:/b''] (\<lambda>p. Some ENOENT) 4096 ''cmd'' 4096 = Inl ENOENT"
  using resolve_path_failure_reason [of "[''PATH=/a:/b'']" "''/a:/b''" "\<lambda>p. Some ENOENT"
      4096 "''cmd''" 4096]
  by (simp add: path_components.simps passed_over_def too_long_def candidate_def
      last_remembered_def remembered_def)

section \<open>Properties of \<^verbatim>\<open>exec_wrapper\<close>\<close>

lemma asked_exec_wrapper:
  assumes "asked (exec_wrapper w cmnd argv envp is_execvp) = Some (c, a, e)"
  shows "command_path w cmnd is_execvp = Inr c \<and> a = argv \<and> e = envp \<and> fn w \<noteq> None"
  using assms
  by (auto simp: exec_wrapper_def exec_allowed_def Let_def
      split: if_splits sum.splits option.splits)

lemma exec_wrapper_asked:
  assumes "command_path w cmnd is_execvp = Inr c" and "fn w = Some real"
  shows "exec_wrapper w cmnd argv envp is_execvp
    = (if allowed (command_allowed w c argv envp)
       then exec_allowed w real (command_allowed w c argv envp) argv is_execvp
              (Some (c, argv, envp))
              (free_distinct (ncmnd (command_allowed w c argv envp)) c
               @ free_distinct (nargv (command_allowed w c argv envp)) argv
               @ free_distinct (nenvp (command_allowed w c argv envp)) envp)
       else \<lparr>outcome = Returns (- 1) EACCES, asked = Some (c, argv, envp), execs = [],
              allocated = [],
              freed = free_distinct (ncmnd (command_allowed w c argv envp)) c
               @ free_distinct (nargv (command_allowed w c argv envp)) argv
               @ free_distinct (nenvp (command_allowed w c argv envp)) envp\<rparr>)"
  using assms by (simp add: exec_wrapper_def Let_def)

lemma exec_wrapper_allowed:
  assumes "r = exec_wrapper w cmnd argv envp is_execvp"
    and "asked r = Some (c, a, e)"
    and "fn w = Some real"
    and "v = command_allowed w c a e"
    and "allowed v"
  shows "a = argv \<and> e = envp
       \<and> r = exec_allowed w real v argv is_execvp (Some (c, argv, envp))
              (free_distinct (ncmnd v) c @ free_distinct (nargv v) argv
               @ free_distinct (nenvp v) envp)"
proof -
  from asked_exec_wrapper [OF assms(2) [unfolded assms(1)]] have
    g: "command_path w cmnd is_execvp = Inr c" "a = argv" "e = envp"
    by auto
  show ?thesis
    using assms(4,5) unfolding assms(1) exec_wrapper_asked [OF g(1) assms(3)] g(2,3)
    by simp
qed

text \<open>
  The slots that the fallback copies, for a count taken from one list and an array of
  another.
\<close>

lemma length_slots_of: "length (slots_of xs) = Suc (length xs)"
  by (simp add: slots_of_def)

lemma drop1_slots_of: "drop (Suc 0) (slots_of (x # xs)) = slots_of xs"
  by (simp add: slots_of_def)

lemma None_in_take_slots_of: "None \<in> set (take n (slots_of xs)) \<longleftrightarrow> length xs < n"
  by (cases "n - length xs") (auto simp: slots_of_def take_map dest: in_set_takeD)

lemma shell_argv_equal_length:
  "xs \<noteq> [] \<Longrightarrow> length ys = length xs \<Longrightarrow>
   shell_argv xs y (Some (slots_of ys)) = Some (Some ''sh'' # y # slots_of (tl ys))"
  by (cases ys) (auto simp: shell_argv_def memcpy_slots_def slots_of_def Let_def)

lemma shell_argv_slots:
  "shell_argv xs y (Some (slots_of ys))
     = (if length xs \<le> length ys
        then Some (Some ''sh'' # y # take (length xs) (drop 1 (slots_of ys)))
        else None)"
  by (auto simp: shell_argv_def memcpy_slots_def slots_of_def Let_def)

lemma None_in_copied:
  "length xs \<le> length ys \<Longrightarrow> None \<in> set (take (length xs) (drop 1 (slots_of ys))) \<Longrightarrow>
   length ys = length xs"
proof (cases ys)
  case Nil
  assume "None \<in> set (take (length xs) (drop 1 (slots_of ys)))"
  then show ?thesis using Nil by (simp add: slots_of_def)
next
  case (Cons z zs)
  assume a: "length xs \<le> length ys" "None \<in> set (take (length xs) (drop 1 (slots_of ys)))"
  then have "length zs < length xs"
    using Cons by (simp add: drop1_slots_of None_in_take_slots_of)
  then show ?thesis using a(1) Cons by simp
qed

lemma w0_resolve:
  "resolve_path (snd (environ w0)) (stat w0) (PATH_MAX w0) ''script'' (PATH_MAX w0)
     = Inr ''/usr/bin/script''"
  by (simp add: w0_def resolve_path_def path_loop.simps candidate_def)

lemma w0_deny_run:
  "exec_wrapper (w0\<lparr>command_allowed := deny_all\<rparr>) (Ext 5, ''script'')
     (Ext 6, [''script'', ''x'', ''y'']) (Ext 7, [''A=1'']) True
   = \<lparr>outcome = Returns (- 1) EACCES,
      asked = Some ((Cmnd_buf, ''/usr/bin/script''), (Ext 6, [''script'', ''x'', ''y'']),
                    (Ext 7, [''A=1''])),
      execs = [], allocated = [], freed = []\<rparr>"
  using w0_resolve
  by (simp add: exec_wrapper_def command_path_def deny_all_def w0_def free_distinct_def)

text \<open>
  C1: for every call of \<^verbatim>\<open>exec_wrapper\<close>, whatever the command, the argument list, the
  environment and the flag \<^verbatim>\<open>is_execvp\<close>: if the policy oracle \<^verbatim>\<open>command_allowed\<close>,
  called by it, returns false, the real exec is never invoked, the call returns -1 and
  \<^verbatim>\<open>errno\<close> is \<^verbatim>\<open>EACCES\<close>.
\<close>

theorem exec_wrapper_denial:
  assumes "asked (exec_wrapper w cmnd argv envp is_execvp) = Some (c, a, e)"
    and "\<not> allowed (command_allowed w c a e)"
  shows "execs (exec_wrapper w cmnd argv envp is_execvp) = []
       \<and> outcome (exec_wrapper w cmnd argv envp is_execvp) = Returns (- 1) EACCES"
  using assms
  by (auto simp: exec_wrapper_def exec_allowed_def Let_def
      split: if_splits sum.splits option.splits)

text \<open>A denied call of the PATH-searching variant, the command found in \<^verbatim>\<open>/usr/bin\<close>.\<close>

theorem exec_wrapper_denial_witness:
  "asked (exec_wrapper (w0\<lparr>command_allowed := deny_all\<rparr>) (Ext 5, ''script'')
            (Ext 6, [''script'', ''x'', ''y'']) (Ext 7, [''A=1'']) True)
     = Some ((Cmnd_buf, ''/usr/bin/script''), (Ext 6, [''script'', ''x'', ''y'']),
             (Ext 7, [''A=1'']))
   \<and> \<not> allowed (command_allowed (w0\<lparr>command_allowed := deny_all\<rparr>)
                  (Cmnd_buf, ''/usr/bin/script'') (Ext 6, [''script'', ''x'', ''y''])
                  (Ext 7, [''A=1'']))
   \<and> execs (exec_wrapper (w0\<lparr>command_allowed := deny_all\<rparr>) (Ext 5, ''script'')
              (Ext 6, [''script'', ''x'', ''y'']) (Ext 7, [''A=1'']) True) = []
   \<and> outcome (exec_wrapper (w0\<lparr>command_allowed := deny_all\<rparr>) (Ext 5, ''script'')
              (Ext 6, [''script'', ''x'', ''y'']) (Ext 7, [''A=1'']) True)
       = Returns (- 1) EACCES"
proof -
  have a: "asked (exec_wrapper (w0\<lparr>command_allowed := deny_all\<rparr>) (Ext 5, ''script'')
            (Ext 6, [''script'', ''x'', ''y'']) (Ext 7, [''A=1'']) True)
     = Some ((Cmnd_buf, ''/usr/bin/script''), (Ext 6, [''script'', ''x'', ''y'']),
             (Ext 7, [''A=1'']))"
    by (simp add: w0_deny_run)
  have d: "\<not> allowed (command_allowed (w0\<lparr>command_allowed := deny_all\<rparr>)
                  (Cmnd_buf, ''/usr/bin/script'') (Ext 6, [''script'', ''x'', ''y''])
                  (Ext 7, [''A=1'']))"
    by (simp add: deny_all_def)
  from exec_wrapper_denial [OF a d] a d show ?thesis by simp
qed

text \<open>
  C4 does not hold on the path where the array of the shell fallback cannot be allocated:
  line 173 returns at once, before the frees of lines 183--188.  Here the oracle returns three
  fresh objects (at \<open>Ext 10\<close>, \<open>Ext 11\<close>, \<open>Ext 12\<close>), the real exec fails with
  \<^verbatim>\<open>ENOEXEC\<close>, \<^verbatim>\<open>reallocarray\<close> fails, and nothing is freed.
\<close>

theorem exec_wrapper_fallback_alloc_failure_leaks:
  "exec_wrapper (w0\<lparr>command_allowed := fresh_all, shargv_alloc := False\<rparr>)
      (Ext 5, ''script'') (Ext 6, [''script'', ''x'', ''y'']) (Ext 7, [''A=1'']) True
   = \<lparr>outcome = Returns (- 1) ENOMEM,
      asked = Some ((Cmnd_buf, ''/usr/bin/script''), (Ext 6, [''script'', ''x'', ''y'']),
                    (Ext 7, [''A=1''])),
      execs = [\<lparr>e_path = Some ''/usr/bin/script'',
                e_argv = Some [Some ''script'', Some ''x'', Some ''y'', None],
                e_envp = Some (Ext 12, [''A=1''])\<rparr>],
      allocated = [], freed = []\<rparr>"
  using w0_resolve
  by (simp add: exec_wrapper_def command_path_def exec_allowed_def fresh_all_def w0_def
      slots_of_def)

text \<open>
  On every other path that returns after the oracle was called, the call frees what it
  allocated and exactly those objects of the oracle that differ by address from the
  corresponding argument.
\<close>

lemma exec_wrapper_ownership:
  assumes "outcome (exec_wrapper w cmnd argv envp is_execvp) = Returns x err"
    and "asked (exec_wrapper w cmnd argv envp is_execvp) = Some (c, a, e)"
    and "shargv_alloc w \<or> \<not> is_execvp \<or> err \<noteq> ENOMEM"
  shows "freed (exec_wrapper w cmnd argv envp is_execvp)
         = allocated (exec_wrapper w cmnd argv envp is_execvp)
           @ free_distinct (ncmnd (command_allowed w c a e)) c
           @ free_distinct (nargv (command_allowed w c a e)) a
           @ free_distinct (nenvp (command_allowed w c a e)) e"
proof -
  from asked_exec_wrapper [OF assms(2)] obtain real where
    g: "command_path w cmnd is_execvp = Inr c" "a = argv" "e = envp" "fn w = Some real"
    by auto
  show ?thesis
    using assms(1,3) unfolding exec_wrapper_asked [OF g(1) g(4)] g(2,3)
    by (auto simp: exec_allowed_def Let_def split: if_splits option.splits)
qed

text \<open>
  C7, as stated, fails when the oracle rewrites the argument list: the shell is given the
  arguments of the rewritten list, not the original ones.  Here the original arguments are
  \<^verbatim>\<open>[script, x, y]\<close> and the oracle returns \<^verbatim>\<open>[script, p, q]\<close>.
\<close>

theorem exec_wrapper_fallback_rewritten_counterexample:
  "execs (exec_wrapper (w0\<lparr>command_allowed := rewrite_argv\<rparr>)
            (Ext 5, ''/usr/bin/script'') (Ext 6, [''script'', ''x'', ''y'']) (Ext 7, [''A=1'']) True)
   = [\<lparr>e_path = Some ''/usr/bin/script'',
       e_argv = Some [Some ''script'', Some ''p'', Some ''q'', None],
       e_envp = Some (Ext 7, [''A=1''])\<rparr>,
      \<lparr>e_path = Some ''/bin/sh'',
       e_argv = Some [Some ''sh'', Some ''/usr/bin/script'', Some ''p'', Some ''q'', None],
       e_envp = Some (Ext 7, [''A=1''])\<rparr>]
   \<and> [Some ''sh'', Some ''/usr/bin/script'', Some ''p'', Some ''q'', None]
       \<noteq> slots_of [''sh'', ''/usr/bin/script'', ''x'', ''y'']"
  by (simp add: exec_wrapper_def command_path_def exec_allowed_def rewrite_argv_def w0_def
      slots_of_def shell_argv_def memcpy_slots_def)

text \<open>
  C7, amended: only for the PATH-searching variants, when the authorized real exec fails
  with \<^verbatim>\<open>ENOEXEC\<close>, the array of the fallback can be allocated, and the argument list
  that the oracle returned has as many entries as the original one, and at least one,
  \<^verbatim>\<open>exec_wrapper\<close> invokes the real exec again on the system shell, with the environment
  that the oracle returned and the argument vector \<^verbatim>\<open>sh\<close>, the command that the oracle
  returned, the arguments that the oracle returned from index 1 on, and NULL.  When the
  oracle returns the command and the argument list that it was given, and that list is not
  empty, the vector is \<^verbatim>\<open>sh\<close>, the resolved command, the original arguments from index 1
  on, and NULL.  For the other variants the failure with \<^verbatim>\<open>ENOEXEC\<close> is returned
  unchanged.
\<close>

theorem exec_wrapper_enoexec_fallback:
  assumes "r = exec_wrapper w cmnd argv envp is_execvp"
    and "asked r = Some (c, a, e)"
    and "fn w = Some real"
    and "v = command_allowed w c a e"
    and "allowed v"
    and "call1 = \<lparr>e_path = map_option snd (ncmnd v),
                    e_argv = map_option (\<lambda>a. slots_of (snd a)) (nargv v), e_envp = nenvp v\<rparr>"
    and "real call1 = Some ENOEXEC"
  shows "(is_execvp \<and> shargv_alloc w \<and> nargv v = Some (na, nargs)
            \<and> length nargs = length (snd argv) \<and> snd argv \<noteq> [] \<longrightarrow>
          execs r = [call1,
                     \<lparr>e_path = Some (PATH_SUDO_BSHELL w),
                      e_argv = Some (Some ''sh'' # map_option snd (ncmnd v)
                                     # slots_of (tl nargs)),
                      e_envp = nenvp v\<rparr>])
       \<and> (is_execvp \<and> shargv_alloc w \<and> ncmnd v = Some c \<and> nargv v = Some argv
            \<and> snd argv \<noteq> [] \<longrightarrow>
          execs r = [call1,
                     \<lparr>e_path = Some (PATH_SUDO_BSHELL w),
                      e_argv = Some (slots_of (''sh'' # snd c # tl (snd argv))),
                      e_envp = nenvp v\<rparr>])
       \<and> (\<not> is_execvp \<longrightarrow> execs r = [call1] \<and> outcome r = Returns (- 1) ENOEXEC)"
proof -
  have same: "shell_argv xs (Some y) (Some (slots_of xs)) = Some (slots_of (''sh'' # y # tl xs))"
    if "xs \<noteq> []" for xs y
    using that by (cases xs) (auto simp: shell_argv_def memcpy_slots_def slots_of_def Let_def)
  have r: "r = exec_allowed w real v argv is_execvp (Some (c, argv, envp))
              (free_distinct (ncmnd v) c @ free_distinct (nargv v) argv
               @ free_distinct (nenvp v) envp)"
    using exec_wrapper_allowed [OF assms(1-5)] by simp
  have c1: "real \<lparr>e_path = map_option snd (ncmnd v),
                    e_argv = map_option (\<lambda>a. slots_of (snd a)) (nargv v), e_envp = nenvp v\<rparr>
            = Some ENOEXEC"
    using assms(6,7) by simp
  have one: "\<not> is_execvp \<longrightarrow> execs r = [call1] \<and> outcome r = Returns (- 1) ENOEXEC"
    unfolding r using c1 assms(6) by (simp add: exec_allowed_def Let_def)
  have two: "is_execvp \<and> shargv_alloc w \<and> nargv v = Some (na, nargs)
            \<and> length nargs = length (snd argv) \<and> snd argv \<noteq> [] \<longrightarrow>
          execs r = [call1,
                     \<lparr>e_path = Some (PATH_SUDO_BSHELL w),
                      e_argv = Some (Some ''sh'' # map_option snd (ncmnd v)
                                     # slots_of (tl nargs)),
                      e_envp = nenvp v\<rparr>]"
    unfolding r using c1 assms(6)
    by (auto simp: exec_allowed_def Let_def shell_argv_equal_length split: option.splits)
  have three: "is_execvp \<and> shargv_alloc w \<and> ncmnd v = Some c \<and> nargv v = Some argv
            \<and> snd argv \<noteq> [] \<longrightarrow>
          execs r = [call1,
                     \<lparr>e_path = Some (PATH_SUDO_BSHELL w),
                      e_argv = Some (slots_of (''sh'' # snd c # tl (snd argv))),
                      e_envp = nenvp v\<rparr>]"
    unfolding r using c1 assms(6)
    by (auto simp: exec_allowed_def Let_def same split: option.splits)
  from one two three show ?thesis by blast
qed

text \<open>
  The example of the specification, \<^verbatim>\<open>/usr/bin/script\<close> called with \<^verbatim>\<open>[script, x, y]\<close>
  and an oracle that rewrites nothing, through both kinds of variant.
\<close>

theorem exec_wrapper_enoexec_fallback_witness:
  "execs (exec_wrapper w0 (Ext 5, ''/usr/bin/script'') (Ext 6, [''script'', ''x'', ''y''])
            (Ext 7, [''A=1'']) True)
   = [\<lparr>e_path = Some ''/usr/bin/script'',
       e_argv = Some (slots_of [''script'', ''x'', ''y'']),
       e_envp = Some (Ext 7, [''A=1''])\<rparr>,
      \<lparr>e_path = Some ''/bin/sh'',
       e_argv = Some (slots_of [''sh'', ''/usr/bin/script'', ''x'', ''y'']),
       e_envp = Some (Ext 7, [''A=1''])\<rparr>]
   \<and> execs (exec_wrapper w0 (Ext 5, ''/usr/bin/script'') (Ext 6, [''script'', ''x'', ''y''])
            (Ext 7, [''A=1'']) False)
     = [\<lparr>e_path = Some ''/usr/bin/script'',
         e_argv = Some (slots_of [''script'', ''x'', ''y'']),
         e_envp = Some (Ext 7, [''A=1''])\<rparr>]
   \<and> outcome (exec_wrapper w0 (Ext 5, ''/usr/bin/script'') (Ext 6, [''script'', ''x'', ''y''])
            (Ext 7, [''A=1'']) False) = Returns (- 1) ENOEXEC"
proof -
  let ?c = "(Ext 5, ''/usr/bin/script'')" and ?a = "(Ext 6, [''script'', ''x'', ''y''])"
    and ?e = "(Ext 7, [''A=1''])"
  let ?call = "\<lparr>e_path = Some ''/usr/bin/script'',
       e_argv = Some (slots_of [''script'', ''x'', ''y'']), e_envp = Some ?e\<rparr>"
  have asked: "asked (exec_wrapper w0 ?c ?a ?e b) = Some (?c, ?a, ?e)" for b
    by (simp add: exec_wrapper_def command_path_def exec_allowed_def w0_def keep_all_def Let_def
        split: option.splits)
  have f: "fn w0 = Some (\<lambda>c. Some ENOEXEC)" by (simp add: w0_def)
  have al: "allowed (command_allowed w0 ?c ?a ?e)" by (simp add: w0_def keep_all_def)
  have c1: "?call = \<lparr>e_path = map_option snd (ncmnd (command_allowed w0 ?c ?a ?e)),
       e_argv = map_option (\<lambda>a. slots_of (snd a)) (nargv (command_allowed w0 ?c ?a ?e)),
       e_envp = nenvp (command_allowed w0 ?c ?a ?e)\<rparr>"
    by (simp add: w0_def keep_all_def)
  have t: "execs (exec_wrapper w0 ?c ?a ?e True) = [?call,
       \<lparr>e_path = Some ''/bin/sh'', e_argv = Some (slots_of [''sh'', ''/usr/bin/script'', ''x'', ''y'']),
        e_envp = Some ?e\<rparr>]"
    using exec_wrapper_enoexec_fallback [where na = "Ext 6" and nargs = "[''script'', ''x'', ''y'']",
        OF refl asked [of True] f refl al c1 refl]
    by (simp add: w0_def keep_all_def slots_of_def)
  have n: "execs (exec_wrapper w0 ?c ?a ?e False) = [?call]
      \<and> outcome (exec_wrapper w0 ?c ?a ?e False) = Returns (- 1) ENOEXEC"
    using exec_wrapper_enoexec_fallback [where na = "Ext 6" and nargs = "[''script'', ''x'', ''y'']",
        OF refl asked [of False] f refl al c1 refl]
    by simp
  from t n show ?thesis by simp
qed

text \<open>
  C9, as stated, fails in its last part: the \<^verbatim>\<open>envp\<close> of the caller takes no part in the
  pointer comparison either.  The oracle returns the environment it was given, which is
  \<^verbatim>\<open>environ\<close> (at \<open>Ext 0\<close>); compared with the caller's \<^verbatim>\<open>envp\<close> (at \<open>Ext 7\<close>) it would
  be freed, and it is not.
\<close>

theorem execve_envp_comparison_counterexample:
  "asked (execve w0 (Ext 5, ''/usr/bin/script'') (Ext 6, [''script'']) (Ext 7, [''A=1'']))
     = Some ((Ext 5, ''/usr/bin/script''), (Ext 6, [''script'']), environ w0)
   \<and> free_distinct
        (nenvp (command_allowed w0 (Ext 5, ''/usr/bin/script'') (Ext 6, [''script'']) (environ w0)))
        (Ext 7, [''A=1'']) = [Ext 0]
   \<and> freed (execve w0 (Ext 5, ''/usr/bin/script'') (Ext 6, [''script'']) (Ext 7, [''A=1''])) = []"
  by (simp add: execve_def exec_wrapper_def command_path_def exec_allowed_def w0_def
      keep_all_def free_distinct_def)

text \<open>
  C9, amended: the replacement \<^verbatim>\<open>execve\<close> and the interposed \<^verbatim>\<open>my_execve\<close> ignore
  their parameter \<^verbatim>\<open>envp\<close> altogether: the result is the same for every \<^verbatim>\<open>envp\<close>; the
  oracle is called with \<^verbatim>\<open>environ\<close>; when the oracle returns that environment the real
  exec is invoked with \<^verbatim>\<open>environ\<close>; and the environment the oracle returned is freed
  when it differs by address from \<^verbatim>\<open>environ\<close>, not from the caller's \<^verbatim>\<open>envp\<close>.
\<close>

theorem execve_ignores_envp:
  "execve w cmnd argv envp = execve w cmnd argv envp'
   \<and> my_execve w cmnd argv envp = my_execve w cmnd argv envp'
   \<and> (asked (execve w cmnd argv envp) = Some (c, a, e) \<longrightarrow>
        e = environ w
        \<and> (allowed (command_allowed w c a e) \<and> nenvp (command_allowed w c a e) = Some e
             \<longrightarrow> map e_envp (execs (execve w cmnd argv envp)) = [Some (environ w)])
        \<and> (\<forall>x err. outcome (execve w cmnd argv envp) = Returns x err \<longrightarrow>
             freed (execve w cmnd argv envp)
               = free_distinct (ncmnd (command_allowed w c a e)) c
                 @ free_distinct (nargv (command_allowed w c a e)) a
                 @ free_distinct (nenvp (command_allowed w c a e)) (environ w)))
   \<and> (asked (my_execve w cmnd argv envp) = Some (c, a, e) \<longrightarrow> e = environ w)"
proof -
  have *: "asked (exec_wrapper w cmnd argv (environ w) False) = Some (c, a, e) \<longrightarrow>
        e = environ w
        \<and> (allowed (command_allowed w c a e) \<and> nenvp (command_allowed w c a e) = Some e
             \<longrightarrow> map e_envp (execs (exec_wrapper w cmnd argv (environ w) False))
                  = [Some (environ w)])
        \<and> (\<forall>x err. outcome (exec_wrapper w cmnd argv (environ w) False) = Returns x err \<longrightarrow>
             freed (exec_wrapper w cmnd argv (environ w) False)
               = free_distinct (ncmnd (command_allowed w c a e)) c
                 @ free_distinct (nargv (command_allowed w c a e)) a
                 @ free_distinct (nenvp (command_allowed w c a e)) (environ w))"
  proof
    assume q: "asked (exec_wrapper w cmnd argv (environ w) False) = Some (c, a, e)"
    from asked_exec_wrapper [OF q] obtain real where
      g: "command_path w cmnd False = Inr c" "a = argv" "e = environ w" "fn w = Some real"
      by auto
    show "e = environ w
        \<and> (allowed (command_allowed w c a e) \<and> nenvp (command_allowed w c a e) = Some e
             \<longrightarrow> map e_envp (execs (exec_wrapper w cmnd argv (environ w) False))
                  = [Some (environ w)])
        \<and> (\<forall>x err. outcome (exec_wrapper w cmnd argv (environ w) False) = Returns x err \<longrightarrow>
             freed (exec_wrapper w cmnd argv (environ w) False)
               = free_distinct (ncmnd (command_allowed w c a e)) c
                 @ free_distinct (nargv (command_allowed w c a e)) a
                 @ free_distinct (nenvp (command_allowed w c a e)) (environ w))"
      unfolding exec_wrapper_asked [OF g(1) g(4)] g(2,3)
      by (auto simp: exec_allowed_def Let_def split: option.splits)
  qed
  have **: "asked (exec_wrapper w cmnd argv (environ w) False) = Some (c, a, e) \<longrightarrow> e = environ w"
    using * by blast
  show ?thesis
    unfolding execve_def my_execve_def using * ** by simp
qed

text \<open>A call of \<^verbatim>\<open>execve\<close> whose \<^verbatim>\<open>envp\<close> is not \<^verbatim>\<open>environ\<close>.\<close>

theorem execve_ignores_envp_witness:
  "asked (execve w0 (Ext 5, ''/usr/bin/script'') (Ext 6, [''script'']) (Ext 7, [''A=1'']))
     = Some ((Ext 5, ''/usr/bin/script''), (Ext 6, [''script'']), environ w0)
   \<and> map e_envp (execs (execve w0 (Ext 5, ''/usr/bin/script'') (Ext 6, [''script'']) (Ext 7, [''A=1''])))
      = [Some (environ w0)]
   \<and> freed (execve w0 (Ext 5, ''/usr/bin/script'') (Ext 6, [''script'']) (Ext 7, [''A=1''])) = []"
proof -
  let ?c = "(Ext 5, ''/usr/bin/script'')" and ?a = "(Ext 6, [''script''])"
    and ?e = "(Ext 7, [''A=1''])"
  have asked: "asked (execve w0 ?c ?a ?e) = Some (?c, ?a, environ w0)"
    by (simp add: execve_def exec_wrapper_def command_path_def exec_allowed_def w0_def
        keep_all_def Let_def)
  have al: "allowed (command_allowed w0 ?c ?a (environ w0))
      \<and> nenvp (command_allowed w0 ?c ?a (environ w0)) = Some (environ w0)"
    by (simp add: w0_def keep_all_def)
  have out: "outcome (execve w0 ?c ?a ?e) = Returns (- 1) ENOEXEC"
    by (simp add: execve_def exec_wrapper_def command_path_def exec_allowed_def w0_def
        keep_all_def Let_def)
  have fr: "free_distinct (ncmnd (command_allowed w0 ?c ?a (environ w0))) ?c
                 @ free_distinct (nargv (command_allowed w0 ?c ?a (environ w0))) ?a
                 @ free_distinct (nenvp (command_allowed w0 ?c ?a (environ w0))) (environ w0) = []"
    by (simp add: w0_def keep_all_def free_distinct_def)
  from execve_ignores_envp [of w0 ?c ?a ?e ?e ?c ?a "environ w0"] asked al out fr
  show ?thesis by simp
qed


text \<open>
  C10: in the shell fallback of \<^verbatim>\<open>exec_wrapper\<close> the number of slots copied is the number
  of entries of the \<^verbatim>\<open>argv\<close> of the caller, and the slots are read from the array
  \<^verbatim>\<open>nargv\<close> of the oracle from index 1 on; a read leaves that array when \<^verbatim>\<open>argv\<close> is
  longer than \<^verbatim>\<open>nargv\<close>, and the vector given to the shell is within bounds and holds a
  terminating NULL only if the two lists have the same length.
\<close>

theorem exec_wrapper_fallback_bounds:
  assumes "r = exec_wrapper w cmnd argv envp True"
    and "asked r = Some (c, a, e)"
    and "fn w = Some real"
    and "v = command_allowed w c a e"
    and "allowed v"
    and "call1 = \<lparr>e_path = map_option snd (ncmnd v),
                    e_argv = map_option (\<lambda>a. slots_of (snd a)) (nargv v), e_envp = nenvp v\<rparr>"
    and "real call1 = Some ENOEXEC"
    and "shargv_alloc w"
    and "ncmnd v = Some nc"
    and "nargv v = Some (na, nargs)"
  shows "(length (snd argv) \<le> length nargs \<longrightarrow>
          execs r = [call1,
                     \<lparr>e_path = Some (PATH_SUDO_BSHELL w),
                      e_argv = Some (Some ''sh'' # Some (snd nc)
                                     # take (length (snd argv)) (drop 1 (slots_of nargs))),
                      e_envp = nenvp v\<rparr>])
       \<and> (length nargs < length (snd argv) \<longrightarrow> outcome r = Undefined \<and> execs r = [call1])
       \<and> ((\<exists>call2 vec. execs r = [call1, call2] \<and> e_argv call2 = Some vec \<and> None \<in> set vec)
            \<longrightarrow> length nargs = length (snd argv))"
proof -
  have r: "r = exec_allowed w real v argv True (Some (c, argv, envp))
              (free_distinct (ncmnd v) c @ free_distinct (nargv v) argv
               @ free_distinct (nenvp v) envp)"
    using exec_wrapper_allowed [OF assms(1-5)] by simp
  have c1: "real \<lparr>e_path = Some (snd nc), e_argv = Some (slots_of nargs), e_envp = nenvp v\<rparr>
            = Some ENOEXEC"
    using assms(6,7,9,10) by simp
  have fits: "execs r = [call1,
                     \<lparr>e_path = Some (PATH_SUDO_BSHELL w),
                      e_argv = Some (Some ''sh'' # Some (snd nc)
                                     # take (length (snd argv)) (drop 1 (slots_of nargs))),
                      e_envp = nenvp v\<rparr>]"
    if "length (snd argv) \<le> length nargs"
    unfolding r using c1 assms(6,8,9,10) that
    by (auto simp: exec_allowed_def Let_def shell_argv_slots split: option.splits)
  have over: "outcome r = Undefined \<and> execs r = [call1]"
    if "length nargs < length (snd argv)"
    unfolding r using c1 assms(6,8,9,10) that
    by (auto simp: exec_allowed_def Let_def shell_argv_slots split: option.splits)
  have "length nargs = length (snd argv)"
    if "execs r = [call1, call2]" "e_argv call2 = Some vec" "None \<in> set vec" for call2 vec
  proof (cases "length (snd argv) \<le> length nargs")
    case True
    from fits [OF True] that(1,2)
    have "vec = Some ''sh'' # Some (snd nc) # take (length (snd argv)) (drop 1 (slots_of nargs))"
      by simp
    then have "None \<in> set (take (length (snd argv)) (drop 1 (slots_of nargs)))"
      using that(3) by simp
    then show ?thesis using None_in_copied [OF True] by simp
  next
    case False
    then show ?thesis using over that(1) by simp
  qed
  then show ?thesis using fits over by blast
qed

text \<open>
  An oracle that rewrites nothing, and an oracle that returns one argument for the three
  of the caller.
\<close>

theorem exec_wrapper_fallback_bounds_witness:
  "execs (exec_wrapper w0 (Ext 5, ''/usr/bin/script'') (Ext 6, [''script'', ''x'', ''y''])
            (Ext 7, [''A=1'']) True)
   = [\<lparr>e_path = Some ''/usr/bin/script'',
       e_argv = Some (slots_of [''script'', ''x'', ''y'']),
       e_envp = Some (Ext 7, [''A=1''])\<rparr>,
      \<lparr>e_path = Some ''/bin/sh'',
       e_argv = Some [Some ''sh'', Some ''/usr/bin/script'', Some ''x'', Some ''y'', None],
       e_envp = Some (Ext 7, [''A=1''])\<rparr>]
   \<and> length [''script'', ''x'', ''y''] = length (snd (Ext 6, [''script'', ''x'', ''y'']))
   \<and> outcome (exec_wrapper (w0\<lparr>command_allowed := shorter_argv\<rparr>) (Ext 5, ''/usr/bin/script'')
               (Ext 6, [''script'', ''x'', ''y'']) (Ext 7, [''A=1'']) True) = Undefined"
proof -
  let ?c = "(Ext 5, ''/usr/bin/script'')" and ?a = "(Ext 6, [''script'', ''x'', ''y''])"
    and ?e = "(Ext 7, [''A=1''])"
  let ?w = "w0\<lparr>command_allowed := shorter_argv\<rparr>"
  let ?call = "\<lparr>e_path = Some ''/usr/bin/script'',
       e_argv = Some (slots_of [''script'', ''x'', ''y'']), e_envp = Some ?e\<rparr>"
  let ?call' = "\<lparr>e_path = Some ''/usr/bin/script'',
       e_argv = Some (slots_of [''script'']), e_envp = Some ?e\<rparr>"
  have asked: "asked (exec_wrapper w0 ?c ?a ?e True) = Some (?c, ?a, ?e)"
    by (simp add: exec_wrapper_def command_path_def exec_allowed_def w0_def keep_all_def Let_def
        split: option.splits)
  have asked': "asked (exec_wrapper ?w ?c ?a ?e True) = Some (?c, ?a, ?e)"
    by (simp add: exec_wrapper_def command_path_def exec_allowed_def w0_def shorter_argv_def
        Let_def split: option.splits)
  have f: "fn w0 = Some (\<lambda>c. Some ENOEXEC)" "fn ?w = Some (\<lambda>c. Some ENOEXEC)"
    by (simp_all add: w0_def)
  have al: "allowed (command_allowed w0 ?c ?a ?e)" "allowed (command_allowed ?w ?c ?a ?e)"
    by (simp_all add: w0_def keep_all_def shorter_argv_def)
  have c1: "?call = \<lparr>e_path = map_option snd (ncmnd (command_allowed w0 ?c ?a ?e)),
       e_argv = map_option (\<lambda>a. slots_of (snd a)) (nargv (command_allowed w0 ?c ?a ?e)),
       e_envp = nenvp (command_allowed w0 ?c ?a ?e)\<rparr>"
    by (simp add: w0_def keep_all_def)
  have c1': "?call' = \<lparr>e_path = map_option snd (ncmnd (command_allowed ?w ?c ?a ?e)),
       e_argv = map_option (\<lambda>a. slots_of (snd a)) (nargv (command_allowed ?w ?c ?a ?e)),
       e_envp = nenvp (command_allowed ?w ?c ?a ?e)\<rparr>"
    by (simp add: shorter_argv_def)
  have sa: "shargv_alloc w0" "shargv_alloc ?w" by (simp_all add: w0_def)
  have nc: "ncmnd (command_allowed w0 ?c ?a ?e) = Some ?c"
    "ncmnd (command_allowed ?w ?c ?a ?e) = Some ?c"
    by (simp_all add: w0_def keep_all_def shorter_argv_def)
  have na: "nargv (command_allowed w0 ?c ?a ?e) = Some ?a"
    "nargv (command_allowed ?w ?c ?a ?e) = Some (Ext 11, [''script''])"
    by (simp_all add: w0_def keep_all_def shorter_argv_def)
  note same = exec_wrapper_fallback_bounds [OF refl asked f(1) refl al(1) c1 refl sa(1) nc(1) na(1)]
  note short = exec_wrapper_fallback_bounds [OF refl asked' f(2) refl al(2) c1' refl sa(2) nc(2)
      na(2)]
  from same have "execs (exec_wrapper w0 ?c ?a ?e True) = [?call,
       \<lparr>e_path = Some ''/bin/sh'',
        e_argv = Some [Some ''sh'', Some ''/usr/bin/script'', Some ''x'', Some ''y'', None],
        e_envp = Some ?e\<rparr>]"
    by (simp add: w0_def keep_all_def slots_of_def)
  moreover from short have "outcome (exec_wrapper ?w ?c ?a ?e True) = Undefined"
    by simp
  ultimately show ?thesis by simp
qed

text \<open>
  The same length is also enough when the argument list is not empty; with two empty
  lists the vector has two slots and no NULL.
\<close>

lemma shell_argv_same_length:
  "argv \<noteq> [] \<Longrightarrow> length nargv' = length argv \<Longrightarrow>
   shell_argv argv (Some c) (Some (slots_of nargv')) = Some (slots_of (''sh'' # c # tl nargv'))"
  by (cases nargv') (auto simp: shell_argv_def memcpy_slots_def slots_of_def Let_def)

lemma shell_argv_empty:
  "shell_argv [] (Some c) (Some (slots_of [])) = Some [Some ''sh'', Some c]"
  by (simp add: shell_argv_def memcpy_slots_def slots_of_def)

section \<open>The scan loop of \<^verbatim>\<open>sudo_preload_dso\<close>\<close>

text \<open>
  The removal loop on an array that holds \<open>pre\<close>, the duplicate \<open>p\<close>, the entries \<open>qs\<close>
  and the terminating NULL: the entries after the duplicate move down by one slot, and the
  NULL is there twice.
\<close>

lemma remove_dup_Null:
  "length xs = i \<Longrightarrow> remove_dup (xs @ Null # rest) i = Some (xs @ Null # rest)"
  by (subst remove_dup.simps) (simp add: nth_append)

lemma remove_dup_env:
  "remove_dup (map Ptr xs @ Ptr p # map Ptr ys @ Null # rest) (length xs)
     = Some (map Ptr xs @ map Ptr ys @ Null # Null # rest)"
proof (induction ys arbitrary: xs p)
  case Nil
  show ?case
    apply (subst remove_dup.simps)
    apply (simp add: nth_append list_update_append)
    apply (rule remove_dup_Null [of "map Ptr xs @ [Null]" _ "rest", simplified])
    apply simp
    done
next
  case (Cons y ys)
  have "remove_dup (map Ptr (xs @ [y]) @ Ptr y # map Ptr ys @ Null # rest) (length (xs @ [y]))
     = Some (map Ptr (xs @ [y]) @ map Ptr ys @ Null # Null # rest)"
    by (rule Cons.IH)
  then show ?case
    apply (subst remove_dup.simps)
    apply (simp add: nth_append list_update_append)
    done
qed

text \<open>
  One round of the loop of lines 77--131 in terms of \<open>note_entry\<close>, and the loop on an
  array in terms of the loop on the list of the entries still to come.
\<close>

lemma env_len_note_entry:
  "note_entry cfg d fd l e = Some l1 \<Longrightarrow> env_len l1 = env_len l \<and> caller_envp l1 = caller_envp l"
  by (auto simp: note_entry_def split: if_splits option.splits)

lemma note_entry_caller_envp:
  "note_entry cfg d fd (l\<lparr>caller_envp := a\<rparr>) e
     = map_option (\<lambda>l1. l1\<lparr>caller_envp := a\<rparr>) (note_entry cfg d fd l e)"
  by (auto simp: note_entry_def split: if_splits option.splits)


lemma scan_env_step:
  assumes "env_len l < length (caller_envp l)" and "caller_envp l ! env_len l = Ptr p"
  shows "scan_env cfg d fd l =
     (case note_entry cfg d fd l (str_of p) of
        Some l1 \<Rightarrow> scan_env cfg d fd (l1\<lparr>env_len := env_len l + 1\<rparr>)
      | None \<Rightarrow>
          (case remove_dup (caller_envp l) (env_len l) of
             None \<Rightarrow> None
           | Some envp' \<Rightarrow>
               scan_env cfg d fd (l\<lparr>caller_envp := envp', env_len := env_len l + 1\<rparr>)))"
  using assms
  by (subst scan_env.simps) (auto simp: note_entry_def split: option.splits)

lemma scan_env_stop:
  assumes "env_len l < length (caller_envp l)" and "caller_envp l ! env_len l = Null"
  shows "scan_env cfg d fd l = Some l"
  using assms by (subst scan_env.simps) auto

lemma locals_update_comm:
  "l\<lparr>env_len := n, caller_envp := a\<rparr> = l\<lparr>caller_envp := a, env_len := n\<rparr>"
  by (cases l) simp

lemma length_scan_list:
  "scan_list cfg d fd l ps = (ks, l') \<Longrightarrow> length ks \<le> length ps"
proof (induction ps arbitrary: l ks l' rule: length_induct)
  case (1 ps)
  note IH = 1(1) [rule_format]
  show ?case
  proof (cases ps)
    case Nil
    with 1 show ?thesis by simp
  next
    case (Cons p qs)
    show ?thesis
    proof (cases "note_entry cfg d fd l (str_of p)")
      case (Some l1)
      obtain ks1 where k: "scan_list cfg d fd (l1\<lparr>env_len := env_len l + 1\<rparr>) qs = (ks1, l')"
        and ks: "ks = p # ks1"
        using 1(2) Cons Some by (auto split: prod.splits)
      have "length ks1 \<le> length qs" by (rule IH [OF _ k]) (simp add: Cons)
      with ks Cons show ?thesis by simp
    next
      case None
      show ?thesis
      proof (cases qs)
        case Nil
        with 1(2) Cons None show ?thesis by simp
      next
        case (Cons q rs)
        obtain ks1 where k: "scan_list cfg d fd (l\<lparr>env_len := env_len l + 1\<rparr>) rs = (ks1, l')"
          and ks: "ks = q # ks1"
          using 1(2) \<open>ps = p # qs\<close> None Cons by (auto split: prod.splits)
        have "length ks1 \<le> length rs"
          by (rule IH [OF _ k]) (simp add: Cons \<open>ps = p # qs\<close>)
        with ks Cons \<open>ps = p # qs\<close> show ?thesis by simp
      qed
    qed
  qed
qed

lemma scan_list_caller_envp:
  "scan_list cfg d fd l ps = (ks, l') \<Longrightarrow>
   scan_list cfg d fd (l\<lparr>caller_envp := a\<rparr>) ps = (ks, l'\<lparr>caller_envp := a\<rparr>)"
proof (induction ps arbitrary: l ks l' rule: length_induct)
  case (1 ps)
  note IH = 1(1) [rule_format]
  show ?case
  proof (cases ps)
    case Nil
    with 1 show ?thesis by auto
  next
    case (Cons p qs)
    show ?thesis
    proof (cases "note_entry cfg d fd l (str_of p)")
      case (Some l1)
      obtain ks1 where k: "scan_list cfg d fd (l1\<lparr>env_len := env_len l + 1\<rparr>) qs = (ks1, l')"
        and ks: "ks = p # ks1"
        using 1(2) Cons Some by (auto split: prod.splits)
      have "scan_list cfg d fd (l1\<lparr>env_len := env_len l + 1\<rparr>\<lparr>caller_envp := a\<rparr>) qs
          = (ks1, l'\<lparr>caller_envp := a\<rparr>)"
        by (rule IH [OF _ k]) (simp add: Cons)
      with ks Cons Some show ?thesis
        by (simp add: note_entry_caller_envp locals_update_comm)
    next
      case None
      show ?thesis
      proof (cases qs)
        case Nil
        with 1(2) Cons None show ?thesis by (auto simp: note_entry_caller_envp)
      next
        case (Cons q rs)
        obtain ks1 where k: "scan_list cfg d fd (l\<lparr>env_len := env_len l + 1\<rparr>) rs = (ks1, l')"
          and ks: "ks = q # ks1"
          using 1(2) \<open>ps = p # qs\<close> None Cons by (auto split: prod.splits)
        have "scan_list cfg d fd (l\<lparr>env_len := env_len l + 1\<rparr>\<lparr>caller_envp := a\<rparr>) rs
            = (ks1, l'\<lparr>caller_envp := a\<rparr>)"
          by (rule IH [OF _ k]) (simp add: Cons \<open>ps = p # qs\<close>)
        with ks Cons \<open>ps = p # qs\<close> None show ?thesis
          by (simp add: note_entry_caller_envp locals_update_comm)
      qed
    qed
  qed
qed

lemma scan_env_scan_list:
  assumes "scan_list cfg d fd l ps = (ks, l')"
    and "caller_envp l = map Ptr xs @ map Ptr ps @ Null # rest"
    and "env_len l = length xs"
  shows "scan_env cfg d fd l
         = Some (l'\<lparr>caller_envp :=
                      map Ptr (xs @ ks) @ Null # replicate (length ps - length ks) Null @ rest\<rparr>)"
  using assms
proof (induction ps arbitrary: xs l ks l' rest rule: length_induct)
  case (1 ps)
  note IH = 1(1) and sl = 1(2) and ca = 1(3) and el = 1(4)
  show ?case
  proof (cases ps)
    case Nil
    have "scan_env cfg d fd l = Some l"
      by (rule scan_env_stop) (simp_all add: ca el Nil nth_append)
    moreover have "l' = l" "ks = []" using sl Nil by simp_all
    ultimately show ?thesis using ca Nil by simp
  next
    case (Cons p qs)
    have at: "env_len l < length (caller_envp l)" "caller_envp l ! env_len l = Ptr p"
      by (simp_all add: ca el Cons nth_append)
    show ?thesis
    proof (cases "note_entry cfg d fd l (str_of p)")
      case (Some l1)
      obtain ks1 where ks1: "scan_list cfg d fd (l1\<lparr>env_len := env_len l + 1\<rparr>) qs = (ks1, l')"
        and ks: "ks = p # ks1"
        using sl Cons Some by (auto split: prod.splits)
      have l1: "caller_envp l1 = caller_envp l"
        using env_len_note_entry [OF Some] by simp
      have "scan_env cfg d fd (l1\<lparr>env_len := env_len l + 1\<rparr>)
           = Some (l'\<lparr>caller_envp :=
                      map Ptr ((xs @ [p]) @ ks1) @ Null
                        # replicate (length qs - length ks1) Null @ rest\<rparr>)"
        by (rule IH [rule_format, OF _ ks1]) (simp_all add: Cons l1 ca el)
      then show ?thesis
        unfolding scan_env_step [OF at] Some using ks Cons by simp
    next
      case None
      have rm: "remove_dup (caller_envp l) (env_len l)
                 = Some (map Ptr xs @ map Ptr qs @ Null # Null # rest)"
        unfolding ca el Cons using remove_dup_env [of xs p qs rest] by simp
      show ?thesis
      proof (cases qs)
        case Nil
        have st: "scan_env cfg d fd
                 (l\<lparr>caller_envp := map Ptr xs @ Null # Null # rest, env_len := env_len l + 1\<rparr>)
               = Some (l\<lparr>caller_envp := map Ptr xs @ Null # Null # rest,
                        env_len := env_len l + 1\<rparr>)"
          by (rule scan_env_stop) (simp_all add: el nth_append)
        have "l' = l\<lparr>env_len := env_len l + 1\<rparr>" "ks = []"
          using sl Cons None Nil by simp_all
        then show ?thesis
          unfolding scan_env_step [OF at] None using rm Nil Cons st by simp
      next
        case (Cons q rs)
        obtain ks1 where ks1: "scan_list cfg d fd (l\<lparr>env_len := env_len l + 1\<rparr>) rs = (ks1, l')"
          and ks: "ks = q # ks1"
          using sl \<open>ps = p # qs\<close> None Cons by (auto split: prod.splits)
        have le: "length ks1 \<le> length rs" by (rule length_scan_list [OF ks1])
        let ?a = "map Ptr xs @ map Ptr qs @ Null # Null # rest"
        have "scan_env cfg d fd (l\<lparr>env_len := env_len l + 1\<rparr>\<lparr>caller_envp := ?a\<rparr>)
           = Some (l'\<lparr>caller_envp := ?a\<rparr>\<lparr>caller_envp :=
                      map Ptr ((xs @ [q]) @ ks1) @ Null
                        # replicate (length rs - length ks1) Null @ Null # rest\<rparr>)"
          by (rule IH [rule_format, OF _ scan_list_caller_envp [OF ks1]])
            (simp_all add: Cons \<open>ps = p # qs\<close> el)
        then have "scan_env cfg d fd
                 (l\<lparr>caller_envp := map Ptr xs @ map Ptr qs @ Null # Null # rest,
                    env_len := env_len l + 1\<rparr>)
           = Some (l'\<lparr>caller_envp :=
                      map Ptr ((xs @ [q]) @ ks1) @ Null
                        # replicate (length rs - length ks1) Null @ Null # rest\<rparr>)"
          by (simp add: locals_update_comm)
        moreover have "replicate (length rs - length ks1) Null @ Null # rest
            = replicate (length ps - length ks) Null @ rest"
          using le ks Cons \<open>ps = p # qs\<close>
          by (simp add: Suc_diff_le replicate_app_Cons_same)
        ultimately show ?thesis
          unfolding scan_env_step [OF at] None using rm ks by simp
      qed
    qed
  qed
qed

lemma scan_list_fields:
  "scan_list cfg d fd l ps = (ks, l') \<Longrightarrow>
     new_envp l' = new_envp l \<and> live l' = live l \<and> caller_envp l' = caller_envp l
     \<and> (dso_enabled l \<longrightarrow> dso_enabled l')"
proof (induction ps arbitrary: l ks l' rule: length_induct)
  case (1 ps)
  note IH = 1(1) [rule_format]
  show ?case
  proof (cases ps)
    case Nil
    with 1 show ?thesis by auto
  next
    case (Cons p qs)
    show ?thesis
    proof (cases "note_entry cfg d fd l (str_of p)")
      case (Some l1)
      obtain ks1 where k: "scan_list cfg d fd (l1\<lparr>env_len := env_len l + 1\<rparr>) qs = (ks1, l')"
        using 1(2) Cons Some by (auto split: prod.splits)
      have "new_envp l1 = new_envp l \<and> live l1 = live l \<and> caller_envp l1 = caller_envp l
          \<and> (dso_enabled l \<longrightarrow> dso_enabled l1)"
        using Some by (auto simp: note_entry_def split: if_splits option.splits)
      with IH [OF _ k] Cons show ?thesis by simp
    next
      case None
      show ?thesis
      proof (cases qs)
        case Nil
        with 1(2) Cons None show ?thesis by auto
      next
        case (Cons q rs)
        obtain ks1 where k: "scan_list cfg d fd (l\<lparr>env_len := env_len l + 1\<rparr>) rs = (ks1, l')"
          using 1(2) \<open>ps = p # qs\<close> None Cons by (auto split: prod.splits)
        with IH [OF _ k] Cons \<open>ps = p # qs\<close> show ?thesis by simp
      qed
    qed
  qed
qed


text \<open>
  On an environment that is \<open>slip_free\<close> the loop is the scan that looks at every entry.
  That scan keeps the first occurrence of each managed variable, at the index that the
  locals hold, drops every later occurrence and keeps every other entry in its place.
\<close>

lemma note_entry_plain: "plain cfg fd e \<Longrightarrow> note_entry cfg d fd l e = Some l"
  by (auto simp: note_entry_def plain_def)

lemma note_entry_None:
  "note_entry cfg d fd l e = None \<longleftrightarrow>
     (is_preload cfg e \<and> preload_idx l \<noteq> None) \<or> (is_fd cfg fd e \<and> intercept_idx l \<noteq> None)"
  by (auto simp: note_entry_def is_fd_def split: option.splits)

lemma note_entry_idx:
  "note_entry cfg d fd l e = Some l1 \<Longrightarrow>
     (preload_idx l1 \<noteq> None) = (is_preload cfg e \<or> preload_idx l \<noteq> None) \<and>
     (intercept_idx l1 \<noteq> None) = (is_fd cfg fd e \<or> intercept_idx l \<noteq> None)"
  by (auto simp: note_entry_def is_fd_def split: option.splits if_splits)

lemma slip_free_plain:
  "plain cfg fd e \<Longrightarrow> slip_free cfg fd sp sf (e # es) = slip_free cfg fd sp sf es"
  by (auto simp: plain_def)

lemma slip_free_Cons:
  "slip_free cfg fd sp sf (e # es) =
     (if is_preload cfg e then
        (if sp then es \<noteq> [] \<and> plain cfg fd (hd es) \<and> slip_free cfg fd sp sf es
         else slip_free cfg fd True sf es)
      else if is_fd cfg fd e then
        (if sf then es \<noteq> [] \<and> plain cfg fd (hd es) \<and> slip_free cfg fd sp sf es
         else slip_free cfg fd sp True es)
      else slip_free cfg fd sp sf es)"
  by (simp add: is_fd_def)

lemma scan_list_dedup:
  assumes "slip_free cfg fd (preload_idx l \<noteq> None) (intercept_idx l \<noteq> None) (map str_of ps)"
  shows "scan_list cfg d fd l ps = scan_dedup cfg d fd l ps"
  using assms
proof (induction ps arbitrary: l rule: length_induct)
  case (1 ps)
  note IH = 1(1) [rule_format] and sf = 1(2)
  show ?case
  proof (cases ps)
    case Nil
    then show ?thesis by simp
  next
    case (Cons p qs)
    show ?thesis
    proof (cases "note_entry cfg d fd l (str_of p)")
      case (Some l1)
      have "slip_free cfg fd (preload_idx l1 \<noteq> None) (intercept_idx l1 \<noteq> None) (map str_of qs)"
        using sf Cons Some note_entry_idx [OF Some]
        by (auto simp: note_entry_def is_fd_def split: if_splits option.splits)
      then have "scan_list cfg d fd (l1\<lparr>env_len := env_len l + 1\<rparr>) qs
          = scan_dedup cfg d fd (l1\<lparr>env_len := env_len l + 1\<rparr>) qs"
        using IH [of qs "l1\<lparr>env_len := env_len l + 1\<rparr>"] Cons by simp
      then show ?thesis using Cons Some by simp
    next
      case None
      then have dup: "(is_preload cfg (str_of p) \<and> preload_idx l \<noteq> None)
          \<or> (is_fd cfg fd (str_of p) \<and> intercept_idx l \<noteq> None)"
        by (simp add: note_entry_None)
      then obtain q rs where qs: "qs = q # rs" and pl: "plain cfg fd (str_of q)"
        and sf': "slip_free cfg fd (preload_idx l \<noteq> None) (intercept_idx l \<noteq> None)
                    (map str_of (q # rs))"
        using sf Cons by (cases qs) (auto simp: is_fd_def split: if_splits)
      have sf'': "slip_free cfg fd (preload_idx l \<noteq> None) (intercept_idx l \<noteq> None)
                    (map str_of rs)"
        using sf' by (simp only: list.map slip_free_plain [OF pl])
      have "scan_list cfg d fd (l\<lparr>env_len := env_len l + 1\<rparr>) rs
          = scan_dedup cfg d fd (l\<lparr>env_len := env_len l + 1\<rparr>) rs"
        using IH [of rs "l\<lparr>env_len := env_len l + 1\<rparr>"] Cons qs sf'' by simp
      then show ?thesis
        using Cons None qs note_entry_plain [OF pl] by simp
    qed
  qed
qed

lemma scan_dedup_len:
  "scan_dedup cfg d fd l ps = (ks, l') \<Longrightarrow> env_len l' = env_len l + length ks"
proof (induction ps arbitrary: l ks l')
  case Nil
  then show ?case by simp
next
  case (Cons p ps)
  show ?case
  proof (cases "note_entry cfg d fd l (str_of p)")
    case None
    then show ?thesis using Cons by simp
  next
    case (Some l1)
    then obtain ks1 where "scan_dedup cfg d fd (l1\<lparr>env_len := env_len l + 1\<rparr>) ps = (ks1, l')"
      "ks = p # ks1"
      using Cons.prems by (auto split: prod.splits)
    then show ?thesis using Cons.IH [of "l1\<lparr>env_len := env_len l + 1\<rparr>" ks1 l'] by simp
  qed
qed

lemma scan_dedup_preload_seen:
  "scan_dedup cfg d fd l ps = (ks, l') \<Longrightarrow> preload_idx l = Some i \<Longrightarrow>
     preload_idx l' = Some i \<and> dso_present l' = dso_present l
     \<and> (\<forall>k\<in>set ks. \<not> is_preload cfg (str_of k))"
proof (induction ps arbitrary: l ks l')
  case Nil
  then show ?case by simp
next
  case (Cons p ps)
  show ?case
  proof (cases "note_entry cfg d fd l (str_of p)")
    case None
    then show ?thesis using Cons by simp
  next
    case (Some l1)
    then obtain ks1 where k: "scan_dedup cfg d fd (l1\<lparr>env_len := env_len l + 1\<rparr>) ps = (ks1, l')"
      "ks = p # ks1"
      using Cons.prems by (auto split: prod.splits)
    have "preload_idx l1 = Some i \<and> dso_present l1 = dso_present l \<and> \<not> is_preload cfg (str_of p)"
      using Some Cons.prems(2) by (auto simp: note_entry_def split: if_splits option.splits)
    then show ?thesis using Cons.IH [of "l1\<lparr>env_len := env_len l + 1\<rparr>" ks1 l'] k by simp
  qed
qed

lemma scan_dedup_preload:
  "scan_dedup cfg d fd l ps = (ks, l') \<Longrightarrow> preload_idx l = None \<Longrightarrow>
     (case preload_idx l' of
        None \<Rightarrow> dso_present l' = dso_present l
                  \<and> (\<forall>k\<in>set ks. \<not> is_preload cfg (str_of k))
                  \<and> (\<forall>k\<in>set ps. \<not> is_preload cfg (str_of k))
      | Some i \<Rightarrow> env_len l \<le> i \<and> i - env_len l < length ks
                  \<and> filter (is_preload cfg) (map str_of ks) = [str_of (ks ! (i - env_len l))]
                  \<and> take 1 (filter (is_preload cfg) (map str_of ps)) = [str_of (ks ! (i - env_len l))]
                  \<and> dso_present l' = (dso_present l \<or> dso_first cfg d (val_of cfg (str_of (ks ! (i - env_len l))))))"
proof (induction ps arbitrary: l ks l')
  case Nil
  then show ?case by simp
next
  case (Cons p ps)
  from Cons.prems(2) have "note_entry cfg d fd l (str_of p) \<noteq> None \<or> is_fd cfg fd (str_of p)"
    by (auto simp: note_entry_None)
  show ?case
  proof (cases "note_entry cfg d fd l (str_of p)")
    case None
    then have np: "\<not> is_preload cfg (str_of p)"
      using Cons.prems(2) by (simp add: note_entry_None is_fd_def)
    have "scan_dedup cfg d fd l ps = (ks, l')" using Cons.prems(1) None by simp
    from Cons.IH [OF this Cons.prems(2)] np show ?thesis
      by (auto split: option.splits)
  next
    case (Some l1)
    then obtain ks1 where k: "scan_dedup cfg d fd (l1\<lparr>env_len := env_len l + 1\<rparr>) ps = (ks1, l')"
      "ks = p # ks1"
      using Cons.prems by (auto split: prod.splits)
    show ?thesis
    proof (cases "is_preload cfg (str_of p)")
      case True
      then have l1: "preload_idx l1 = Some (env_len l)"
        "dso_present l1 = (dso_present l \<or> dso_first cfg d (val_of cfg (str_of p)))"
        using Some Cons.prems(2) by (auto simp: note_entry_def val_of_def)
      from scan_dedup_preload_seen [OF k(1), of "env_len l"] l1 True k(2)
      show ?thesis by (simp add: filter_empty_conv)
    next
      case False
      then have l1: "preload_idx l1 = None" "dso_present l1 = dso_present l"
        using Some Cons.prems(2) by (auto simp: note_entry_def split: if_splits option.splits)
      from Cons.IH [OF k(1)] l1 False k(2)
      show ?thesis by (auto split: option.splits simp: nth_Cons')
    qed
  qed
qed

lemma scan_dedup_fd_seen:
  "scan_dedup cfg d fd l ps = (ks, l') \<Longrightarrow> intercept_idx l = Some j \<Longrightarrow>
     intercept_idx l' = Some j \<and> fd_present l' = fd_present l
     \<and> (\<forall>k\<in>set ks. \<not> is_fd cfg fd (str_of k))"
proof (induction ps arbitrary: l ks l')
  case Nil
  then show ?case by simp
next
  case (Cons p ps)
  show ?case
  proof (cases "note_entry cfg d fd l (str_of p)")
    case None
    then show ?thesis using Cons by simp
  next
    case (Some l1)
    then obtain ks1 where k: "scan_dedup cfg d fd (l1\<lparr>env_len := env_len l + 1\<rparr>) ps = (ks1, l')"
      "ks = p # ks1"
      using Cons.prems by (auto split: prod.splits)
    have "intercept_idx l1 = Some j \<and> fd_present l1 = fd_present l \<and> \<not> is_fd cfg fd (str_of p)"
      using Some Cons.prems(2)
      by (auto simp: note_entry_def is_fd_def split: if_splits option.splits)
    then show ?thesis using Cons.IH [of "l1\<lparr>env_len := env_len l + 1\<rparr>" ks1 l'] k by simp
  qed
qed

lemma scan_dedup_fd:
  "scan_dedup cfg d fd l ps = (ks, l') \<Longrightarrow> intercept_idx l = None \<Longrightarrow>
     (case intercept_idx l' of
        None \<Rightarrow> fd_present l' = fd_present l
                  \<and> (\<forall>k\<in>set ks. \<not> is_fd cfg fd (str_of k))
                  \<and> (\<forall>k\<in>set ps. \<not> is_fd cfg fd (str_of k))
      | Some j \<Rightarrow> env_len l \<le> j \<and> j - env_len l < length ks
                  \<and> filter (is_fd cfg fd) (map str_of ks) = [str_of (ks ! (j - env_len l))]
                  \<and> take 1 (filter (is_fd cfg fd) (map str_of ps)) = [str_of (ks ! (j - env_len l))]
                  \<and> fd_present l' =
                      (fd_present l \<or>
                       sudo_strtonum cfg (drop 18 (str_of (ks ! (j - env_len l)))) 0 INT_MAX
                         = Some fd))"
proof (induction ps arbitrary: l ks l')
  case Nil
  then show ?case by simp
next
  case (Cons p ps)
  show ?case
  proof (cases "note_entry cfg d fd l (str_of p)")
    case None
    then have np: "\<not> is_fd cfg fd (str_of p)"
      using Cons.prems(2) by (auto simp: note_entry_None is_fd_def)
    have "scan_dedup cfg d fd l ps = (ks, l')" using Cons.prems(1) None by simp
    from Cons.IH [OF this Cons.prems(2)] np show ?thesis
      by (auto split: option.splits)
  next
    case (Some l1)
    then obtain ks1 where k: "scan_dedup cfg d fd (l1\<lparr>env_len := env_len l + 1\<rparr>) ps = (ks1, l')"
      "ks = p # ks1"
      using Cons.prems by (auto split: prod.splits)
    show ?thesis
    proof (cases "is_fd cfg fd (str_of p)")
      case True
      then have l1: "intercept_idx l1 = Some (env_len l)"
        "fd_present l1 = (fd_present l \<or>
            sudo_strtonum cfg (drop 18 (str_of p)) 0 INT_MAX = Some fd)"
        using Some Cons.prems(2) by (auto simp: note_entry_def is_fd_def)
      from scan_dedup_fd_seen [OF k(1), of "env_len l"] l1 True k(2)
      show ?thesis by (simp add: filter_empty_conv)
    next
      case False
      then have l1: "intercept_idx l1 = None" "fd_present l1 = fd_present l"
        using Some Cons.prems(2)
        by (auto simp: note_entry_def is_fd_def split: if_splits option.splits)
      from Cons.IH [OF k(1)] l1 False k(2)
      show ?thesis by (auto split: option.splits simp: nth_Cons')
    qed
  qed
qed

lemma scan_dedup_unmanaged:
  "scan_dedup cfg d fd l ps = (ks, l') \<Longrightarrow>
     filter (unmanaged cfg fd) (map str_of ks) = filter (unmanaged cfg fd) (map str_of ps)"
proof (induction ps arbitrary: l ks l')
  case Nil
  then show ?case by simp
next
  case (Cons p ps)
  show ?case
  proof (cases "note_entry cfg d fd l (str_of p)")
    case None
    then have "\<not> unmanaged cfg fd (str_of p)"
      by (auto simp: note_entry_None unmanaged_def)
    then show ?thesis using Cons None by simp
  next
    case (Some l1)
    then obtain ks1 where k: "scan_dedup cfg d fd (l1\<lparr>env_len := env_len l + 1\<rparr>) ps = (ks1, l')"
      "ks = p # ks1"
      using Cons.prems by (auto split: prod.splits)
    then show ?thesis using Cons.IH [OF k(1)] by simp
  qed
qed



lemma dup_free_slip_free:
  assumes "if sp then \<forall>e\<in>set es. \<not> is_preload cfg e
           else length (filter (is_preload cfg) es) \<le> 1"
    and "if sf then \<forall>e\<in>set es. \<not> is_fd cfg fd e
         else length (filter (is_fd cfg fd) es) \<le> 1"
  shows "slip_free cfg fd sp sf es"
  using assms
proof (induction es arbitrary: sp sf)
  case Nil
  then show ?case by simp
next
  case (Cons e es)
  show ?case
  proof (cases "is_preload cfg e")
    case True
    then have "\<not> sp" "\<forall>x\<in>set es. \<not> is_preload cfg x" "\<not> is_fd cfg fd e"
      using Cons.prems(1) by (auto simp: filter_empty_conv is_fd_def split: if_splits)
    moreover have "if sf then \<forall>e\<in>set es. \<not> is_fd cfg fd e
         else length (filter (is_fd cfg fd) es) \<le> 1"
      using Cons.prems(2) \<open>\<not> is_fd cfg fd e\<close> by (auto split: if_splits)
    ultimately show ?thesis
      using True Cons.IH [of True sf] by (simp add: slip_free_Cons del: slip_free.simps)
  next
    case False
    show ?thesis
    proof (cases "is_fd cfg fd e")
      case True
      then have "\<not> sf" "\<forall>x\<in>set es. \<not> is_fd cfg fd x"
        using Cons.prems(2) by (auto simp: filter_empty_conv split: if_splits)
      moreover have "if sp then \<forall>e\<in>set es. \<not> is_preload cfg e
           else length (filter (is_preload cfg) es) \<le> 1"
        using Cons.prems(1) False by (auto split: if_splits)
      ultimately show ?thesis
        using True False Cons.IH [of sp True]
        by (simp add: slip_free_Cons del: slip_free.simps)
    next
      case nf: False
      have "if sp then \<forall>e\<in>set es. \<not> is_preload cfg e
           else length (filter (is_preload cfg) es) \<le> 1"
        using Cons.prems(1) False by (auto split: if_splits)
      moreover have "if sf then \<forall>e\<in>set es. \<not> is_fd cfg fd e
         else length (filter (is_fd cfg fd) es) \<le> 1"
        using Cons.prems(2) nf by (auto split: if_splits)
      ultimately show ?thesis
        using False nf Cons.IH [of sp sf]
        by (simp add: slip_free_Cons del: slip_free.simps)
    qed
  qed
qed

lemma scan_dedup_keep:
  assumes "scan_dedup cfg d fd l ps = (ks, l')"
    and "if preload_idx l \<noteq> None then \<forall>e\<in>set ps. \<not> is_preload cfg (str_of e)
         else length (filter (is_preload cfg) (map str_of ps)) \<le> 1"
    and "if intercept_idx l \<noteq> None then \<forall>e\<in>set ps. \<not> is_fd cfg fd (str_of e)
         else length (filter (is_fd cfg fd) (map str_of ps)) \<le> 1"
  shows "ks = ps"
  using assms
proof (induction ps arbitrary: l ks l')
  case Nil
  then show ?case by simp
next
  case (Cons p ps)
  have nn: "note_entry cfg d fd l (str_of p) \<noteq> None"
    using Cons.prems(2,3) by (auto simp: note_entry_None split: if_splits)
  then obtain l1 where l1: "note_entry cfg d fd l (str_of p) = Some l1" by auto
  then obtain ks1 where k: "scan_dedup cfg d fd (l1\<lparr>env_len := env_len l + 1\<rparr>) ps = (ks1, l')"
    "ks = p # ks1"
    using Cons.prems(1) by (auto split: prod.splits)
  note idx = note_entry_idx [OF l1]
  have "ks1 = ps"
  proof (rule Cons.IH [OF k(1)])
    show "if preload_idx (l1\<lparr>env_len := env_len l + 1\<rparr>) \<noteq> None
          then \<forall>e\<in>set ps. \<not> is_preload cfg (str_of e)
          else length (filter (is_preload cfg) (map str_of ps)) \<le> 1"
      using idx Cons.prems(2) by (auto simp: filter_empty_conv split: if_splits)
    show "if intercept_idx (l1\<lparr>env_len := env_len l + 1\<rparr>) \<noteq> None
          then \<forall>e\<in>set ps. \<not> is_fd cfg fd (str_of e)
          else length (filter (is_fd cfg fd) (map str_of ps)) \<le> 1"
      using idx Cons.prems(3) by (auto simp: filter_empty_conv split: if_splits)
  qed
  then show ?case using k by simp
qed


lemma env_array_ptrs: "env_array es rest = map Ptr (map Str es) @ Null # rest"
  by (simp add: env_array_def)


section \<open>The array that a successful call returns\<close>

text \<open>
  Writes into an array of pointers followed by its NULL and spare slots.
\<close>

lemma env_of_ptrs: "env_of (map Ptr ks @ Null # rest) = Some (map str_of ks)"
  by (induction ks) auto

lemma env_of_append:
  "env_of (map Ptr ks @ rest) = map_option (\<lambda>es. map str_of ks @ es) (env_of rest)"
  by (induction ks) (auto simp: option.map_comp comp_def option.map_ident)

lemma update_ptrs:
  "i < length ks \<Longrightarrow> (map Ptr ks @ rest)[i := Ptr q] = map Ptr (ks[i := q]) @ rest"
  by (simp add: list_update_append map_update)

lemma update_at_end:
  "n = length ks \<Longrightarrow> (map Ptr ks @ x # rest)[n := v] = map Ptr ks @ v # rest"
  by (simp add: list_update_append)

lemma update_after_end:
  "n = length ks \<Longrightarrow>
   (map Ptr ks @ x # y # rest)[Suc n := v] = map Ptr ks @ x # v # rest"
  by (simp add: list_update_append)

lemma update_after_end2:
  "n = length ks \<Longrightarrow>
   (map Ptr ks @ x # y # z # rest)[Suc (Suc n) := v] = map Ptr ks @ x # y # v # rest"
  by (simp add: list_update_append)

lemma update_map_ptrs: "(map Ptr ks)[i := Ptr q] = map Ptr (ks[i := q])"
  by (simp add: map_update)

lemma nth_ptrs: "i < length ks \<Longrightarrow> (map Ptr ks @ rest) ! i = Ptr (ks ! i)"
  by (simp add: nth_append)

lemmas array_simps = env_of_append update_ptrs update_at_end update_after_end
  update_after_end2 nth_ptrs update_map_ptrs

text \<open>
  Without \<^verbatim>\<open>RTLD_PRELOAD_ENABLE_VAR\<close> and \<^verbatim>\<open>_PATH_ASAN_LIB\<close>, and with every allocation
  succeeding, a call whose scan leaves the entries \<open>ks\<close> returns an array that holds
  \<open>ks\<close> with the entry of the preload variable and the entry of the descriptor written by
  \<open>with_preload\<close> and \<open>with_fd\<close>.
\<close>

lemma sudo_preload_dso_success_array:
  assumes cfg: "RTLD_PRELOAD_ENABLE_VAR cfg = None" "PATH_ASAN_LIB cfg = None"
    and alloc: "\<forall>b. alloc b"
    and scan: "scan_list cfg d fd (initial cfg (map Ptr ps @ Null # rest)) ps = (ks, l')"
    and len: "env_len l' = length ks"
    and pidx: "\<forall>i. preload_idx l' = Some i \<longrightarrow> i < length ks"
    and iidx: "\<forall>j. intercept_idx l' = Some j \<longrightarrow> j < length ks"
  shows "\<exists>r pad. sudo_preload_dso cfg alloc (map Ptr ps @ Null # rest) d fd = Some r
           \<and> returned r \<noteq> Failure
           \<and> returned_array r
               = Some (map Ptr (with_fd fd l' (with_preload cfg d l' ks)) @ Null # pad)"
proof -
  let ?envp = "map Ptr ps @ Null # rest"
  let ?pad = "replicate (length ps - length ks) Null @ rest"
  let ?l2 = "l'\<lparr>caller_envp := map Ptr ks @ Null # ?pad\<rparr>"
  have se: "scan_env cfg d fd (initial cfg ?envp) = Some ?l2"
    using scan_env_scan_list [OF scan, of "[]" rest] by (simp add: initial_def)
  have f: "new_envp l' = None" "live l' = []" "dso_enabled l'"
    using scan_list_fields [OF scan] cfg by (simp_all add: initial_def)
  show ?thesis
  proof (cases "preload_idx l' = None \<or> intercept_idx l' = None")
    case True
    show ?thesis
      using cfg alloc se f len True pidx iidx
      by (cases "preload_idx l'"; cases "intercept_idx l'")
        (auto simp: sudo_preload_dso_def copy_envp_def add_preload_def add_enable_def
          add_intercept_fd_def put_envp_def get_envp_def append_envp_def finish_def
          returned_array_def with_fd_def with_preload_def preload_entry_def fd_entry_def
          Let_def array_simps eval_nat_numeral list_update_append1
          split: option.splits)
  next
    case False
    then obtain i j where ij: "preload_idx l' = Some i" "intercept_idx l' = Some j" by auto
    have b: "i < length ks" "j < length ks" using pidx iidx ij by auto
    show ?thesis
      using cfg alloc se f ij b len
      by (auto simp: sudo_preload_dso_def copy_envp_def add_preload_def add_enable_def
          add_intercept_fd_def put_envp_def get_envp_def finish_def returned_array_def
          with_fd_def with_preload_def preload_entry_def fd_entry_def Let_def array_simps)
  qed
qed

text \<open>
  The managed and the unmanaged entries of that array.
\<close>

lemma filter_update_other:
  "j < length xs \<Longrightarrow> \<not> P (xs ! j) \<Longrightarrow> \<not> P v \<Longrightarrow> filter P (xs[j := v]) = filter P xs"
proof -
  assume a: "j < length xs" "\<not> P (xs ! j)" "\<not> P v"
  have "filter P (take j xs @ xs ! j # drop (Suc j) xs) = filter P xs"
    using a(1) by (simp only: id_take_nth_drop [symmetric])
  then show ?thesis
    using a by (simp add: upd_conv_take_nth_drop)
qed

lemma filter_update_single:
  "j < length xs \<Longrightarrow> P v \<Longrightarrow> filter P xs = [xs ! j] \<Longrightarrow> filter P (xs[j := v]) = [v]"
proof -
  assume a: "j < length xs" "P v" "filter P xs = [xs ! j]"
  have "xs ! j \<in> set (filter P xs)"
    using a(3) by simp
  then have p: "P (xs ! j)" by simp
  have "filter P (take j xs @ xs ! j # drop (Suc j) xs) = [xs ! j]"
    using a(1,3) by (simp only: id_take_nth_drop [symmetric])
  then have "filter P (take j xs) = [] \<and> filter P (drop (Suc j) xs) = []"
    using p by (simp add: append_eq_Cons_conv)
  then show ?thesis
    using a by (simp add: upd_conv_take_nth_drop)
qed

lemma take1_filter: "take (Suc 0) xs = [x] \<Longrightarrow> \<exists>ys. xs = x # ys"
  by (cases xs) auto

lemma in_filter_single: "filter P xs = [x] \<Longrightarrow> P x"
proof -
  assume "filter P xs = [x]"
  then have "x \<in> set (filter P xs)" by simp
  then show "P x" by simp
qed

lemma is_preload_entry: "is_preload cfg (preload_entry cfg d old)"
  by (auto simp: is_preload_def starts_with_def preload_entry_def split: option.splits)

lemma dso_first_entry: "dso_first cfg d (val_of cfg (preload_entry cfg d old))"
  by (auto simp: dso_first_def val_of_def preload_entry_def nth_append split: option.splits)

lemma is_intercept_fd_entry: "is_intercept_fd (fd_entry fd)"
  by (simp add: is_intercept_fd_def starts_with_def fd_entry_def)

lemma is_fd_entry: "fd \<noteq> - 1 \<Longrightarrow> \<not> is_preload cfg (fd_entry fd) \<Longrightarrow> is_fd cfg fd (fd_entry fd)"
  by (simp add: is_fd_def is_intercept_fd_entry)

lemma not_is_fd_preload_entry: "\<not> is_fd cfg fd (preload_entry cfg d old)"
  by (simp add: is_fd_def is_preload_entry)

lemma out_preload:
  assumes np: "\<not> is_preload cfg (fd_entry fd)"
    and p: "case preload_idx l' of
        None \<Rightarrow> \<not> dso_present l' \<and> (\<forall>k\<in>set ks. \<not> is_preload cfg (str_of k))
      | Some i \<Rightarrow> i < length ks
                  \<and> filter (is_preload cfg) (map str_of ks) = [str_of (ks ! i)]
                  \<and> dso_present l' = dso_first cfg d (val_of cfg (str_of (ks ! i)))"
    and f: "case intercept_idx l' of
        None \<Rightarrow> True
      | Some j \<Rightarrow> j < length ks \<and> is_fd cfg fd (str_of (ks ! j))"
  shows "filter (is_preload cfg) (map str_of (with_fd fd l' (with_preload cfg d l' ks)))
    = [case preload_idx l' of
         None \<Rightarrow> preload_entry cfg d None
       | Some i \<Rightarrow> if dso_first cfg d (val_of cfg (str_of (ks ! i))) then str_of (ks ! i)
                   else preload_entry cfg d (Some (str_of (ks ! i)))]"
proof -
  let ?ks1 = "with_preload cfg d l' ks"
  have len1: "length ks \<le> length ?ks1"
    by (auto simp: with_preload_def split: option.splits)
  have one: "filter (is_preload cfg) (map str_of ?ks1)
    = [case preload_idx l' of
         None \<Rightarrow> preload_entry cfg d None
       | Some i \<Rightarrow> if dso_first cfg d (val_of cfg (str_of (ks ! i))) then str_of (ks ! i)
                   else preload_entry cfg d (Some (str_of (ks ! i)))]"
  proof (cases "preload_idx l'")
    case None
    then show ?thesis using p
      by (auto simp: with_preload_def is_preload_entry filter_empty_conv)
  next
    case (Some i)
    then show ?thesis using p
      by (auto simp: with_preload_def is_preload_entry map_update filter_update_single)
  qed
  show ?thesis
  proof (cases "\<not> fd_present l' \<and> fd \<noteq> - 1")
    case False
    then show ?thesis using one by (auto simp: with_fd_def)
  next
    case True
    show ?thesis
    proof (cases "intercept_idx l'")
      case None
      then show ?thesis using one True np by (simp add: with_fd_def)
    next
      case (Some j)
      then have j: "j < length ks" "is_fd cfg fd (str_of (ks ! j))" using f by auto
      have "is_preload cfg (str_of (ks ! i))" if "preload_idx l' = Some i" for i
      proof -
        have "str_of (ks ! i) \<in> set (filter (is_preload cfg) (map str_of ks))"
          using p that by simp
        then show ?thesis by simp
      qed
      then have "str_of (?ks1 ! j) = str_of (ks ! j)"
        using p j by (auto simp: with_preload_def nth_append nth_list_update is_fd_def
            split: option.splits)
      then have "\<not> is_preload cfg (map str_of ?ks1 ! j)"
        using j len1 by (auto simp: is_fd_def)
      then show ?thesis
        using one True Some np j len1
        by (simp add: with_fd_def map_update filter_update_other)
    qed
  qed
qed

lemma with_preload_fd:
  assumes p: "case preload_idx l' of
        None \<Rightarrow> True
      | Some i \<Rightarrow> i < length ks \<and> is_preload cfg (str_of (ks ! i))"
  shows "filter (is_fd cfg fd) (map str_of (with_preload cfg d l' ks))
           = filter (is_fd cfg fd) (map str_of ks)"
    and "j < length ks \<Longrightarrow> is_fd cfg fd (str_of (ks ! j)) \<Longrightarrow>
           map str_of (with_preload cfg d l' ks) ! j = str_of (ks ! j)"
    and "length ks \<le> length (with_preload cfg d l' ks)"
    and "filter (unmanaged cfg fd) (map str_of (with_preload cfg d l' ks))
           = filter (unmanaged cfg fd) (map str_of ks)"
  using p
  by (auto simp: with_preload_def not_is_fd_preload_entry map_update filter_update_other
      is_fd_def nth_append nth_list_update unmanaged_def is_preload_entry
      split: option.splits)

lemma out_fd:
  assumes np: "\<not> is_preload cfg (fd_entry fd)" and fd: "fd \<noteq> - 1"
    and p: "case preload_idx l' of
        None \<Rightarrow> True
      | Some i \<Rightarrow> i < length ks \<and> is_preload cfg (str_of (ks ! i))"
    and f: "case intercept_idx l' of
        None \<Rightarrow> \<not> fd_present l' \<and> (\<forall>k\<in>set ks. \<not> is_fd cfg fd (str_of k))
      | Some j \<Rightarrow> j < length ks
                  \<and> filter (is_fd cfg fd) (map str_of ks) = [str_of (ks ! j)]
                  \<and> fd_present l' =
                      (sudo_strtonum cfg (drop 18 (str_of (ks ! j))) 0 INT_MAX = Some fd)"
  shows "filter (is_fd cfg fd) (map str_of (with_fd fd l' (with_preload cfg d l' ks)))
    = [case intercept_idx l' of
         None \<Rightarrow> fd_entry fd
       | Some j \<Rightarrow>
           if sudo_strtonum cfg (drop 18 (str_of (ks ! j))) 0 INT_MAX = Some fd
           then str_of (ks ! j) else fd_entry fd]"
proof (cases "intercept_idx l'")
  case None
  then show ?thesis
    using f fd np with_preload_fd(1) [OF p]
    by (simp add: with_fd_def is_fd_entry filter_empty_conv)
next
  case (Some j)
  then have j: "j < length ks" "filter (is_fd cfg fd) (map str_of ks) = [str_of (ks ! j)]"
    "fd_present l' = (sudo_strtonum cfg (drop 18 (str_of (ks ! j))) 0 INT_MAX = Some fd)"
    using f by auto
  have "str_of (ks ! j) \<in> set (filter (is_fd cfg fd) (map str_of ks))"
    using j by simp
  then have isf: "is_fd cfg fd (str_of (ks ! j))" by simp
  note w = with_preload_fd [OF p]
  have same: "map str_of (with_preload cfg d l' ks) ! j = str_of (ks ! j)"
    by (rule w(2) [OF j(1) isf])
  have jl: "j < length (with_preload cfg d l' ks)"
    using w(3) [of d] j(1) by linarith
  show ?thesis
  proof (cases "fd_present l'")
    case True
    then show ?thesis using Some j w(1) by (simp add: with_fd_def)
  next
    case False
    have "filter (is_fd cfg fd) ((map str_of (with_preload cfg d l' ks))[j := fd_entry fd])
            = [fd_entry fd]"
      by (rule filter_update_single) (use j w(1) same jl fd np in \<open>simp_all add: is_fd_entry\<close>)
    then show ?thesis
      using False Some j fd by (simp add: with_fd_def map_update)
  qed
qed

lemma out_unmanaged:
  assumes p: "case preload_idx l' of
        None \<Rightarrow> True
      | Some i \<Rightarrow> i < length ks \<and> is_preload cfg (str_of (ks ! i))"
    and f: "case intercept_idx l' of
        None \<Rightarrow> True
      | Some j \<Rightarrow> j < length ks \<and> is_fd cfg fd (str_of (ks ! j))"
    and np: "\<not> is_preload cfg (fd_entry fd)"
  shows "filter (unmanaged cfg fd) (map str_of (with_fd fd l' (with_preload cfg d l' ks)))
           = filter (unmanaged cfg fd) (map str_of ks)"
proof (cases "\<not> fd_present l' \<and> fd \<noteq> - 1")
  case False
  then show ?thesis using with_preload_fd(4) [OF p] by (auto simp: with_fd_def)
next
  case True
  note w = with_preload_fd [OF p]
  have nu: "\<not> unmanaged cfg fd (fd_entry fd)"
    using True np by (simp add: unmanaged_def is_fd_entry)
  show ?thesis
  proof (cases "intercept_idx l'")
    case None
    then show ?thesis using True w(4) nu by (simp add: with_fd_def)
  next
    case (Some j)
    then have j: "j < length ks" "is_fd cfg fd (str_of (ks ! j))" using f by auto
    have "\<not> unmanaged cfg fd (map str_of (with_preload cfg d l' ks) ! j)"
      using w(2) [OF j, of d] j by (simp add: unmanaged_def)
    moreover have "j < length (with_preload cfg d l' ks)"
      using w(3) [of d] j(1) by linarith
    ultimately have "filter (unmanaged cfg fd) ((map str_of (with_preload cfg d l' ks))[j := fd_entry fd])
        = filter (unmanaged cfg fd) (map str_of (with_preload cfg d l' ks))"
      using nu by (intro filter_update_other) simp_all
    then show ?thesis using True Some w(4) by (simp add: with_fd_def map_update)
  qed
qed

lemma preload_build:
  assumes cfg: "RTLD_PRELOAD_ENABLE_VAR cfg = None" "PATH_ASAN_LIB cfg = None"
    and np: "\<not> is_preload cfg (fd_entry fd)"
    and alloc: "\<forall>b. alloc b"
    and sf: "slip_free cfg fd False False (map str_of ps)"
  shows "\<exists>r pad outs.
           sudo_preload_dso cfg alloc (map Ptr ps @ Null # rest) d fd = Some r
         \<and> returned r \<noteq> Failure
         \<and> returned_array r = Some (map Ptr outs @ Null # pad)
         \<and> filter (is_preload cfg) (map str_of outs) = [expected_preload cfg d (map str_of ps)]
         \<and> (fd \<noteq> - 1 \<longrightarrow>
              filter (is_fd cfg fd) (map str_of outs) = [expected_fd cfg fd (map str_of ps)])
         \<and> filter (unmanaged cfg fd) (map str_of outs)
              = filter (unmanaged cfg fd) (map str_of ps)
         \<and> (((\<exists>q. filter (is_preload cfg) (map str_of ps) = [q]
                    \<and> dso_first cfg d (val_of cfg q))
               \<and> (fd \<noteq> - 1 \<longrightarrow>
                    (\<exists>g. filter (is_fd cfg fd) (map str_of ps) = [g]
                       \<and> (g = fd_entry fd
                            \<or> sudo_strtonum cfg (drop 18 g) 0 INT_MAX = Some fd))))
              \<longrightarrow> map str_of outs = map str_of ps)"
proof -
  let ?l0 = "initial cfg (map Ptr ps @ Null # rest)"
  obtain ks l' where sd: "scan_dedup cfg d fd ?l0 ps = (ks, l')"
    by (cases "scan_dedup cfg d fd ?l0 ps") auto
  have l0: "preload_idx ?l0 = None" "intercept_idx ?l0 = None" "env_len ?l0 = 0"
    "\<not> dso_present ?l0" "\<not> fd_present ?l0"
    by (simp_all add: initial_def)
  have sl: "scan_list cfg d fd ?l0 ps = (ks, l')"
    using scan_list_dedup [of cfg fd ?l0 ps d] sf sd l0 by simp
  have len: "env_len l' = length ks"
    using scan_dedup_len [OF sd] l0 by simp
  have P: "case preload_idx l' of
        None \<Rightarrow> \<not> dso_present l'
                  \<and> (\<forall>k\<in>set ks. \<not> is_preload cfg (str_of k))
                  \<and> (\<forall>k\<in>set ps. \<not> is_preload cfg (str_of k))
      | Some i \<Rightarrow> i < length ks
                  \<and> filter (is_preload cfg) (map str_of ks) = [str_of (ks ! i)]
                  \<and> take 1 (filter (is_preload cfg) (map str_of ps)) = [str_of (ks ! i)]
                  \<and> dso_present l' = dso_first cfg d (val_of cfg (str_of (ks ! i)))"
    using scan_dedup_preload [OF sd l0(1)] l0 by (auto split: option.splits)
  have F: "case intercept_idx l' of
        None \<Rightarrow> \<not> fd_present l'
                  \<and> (\<forall>k\<in>set ks. \<not> is_fd cfg fd (str_of k))
                  \<and> (\<forall>k\<in>set ps. \<not> is_fd cfg fd (str_of k))
      | Some j \<Rightarrow> j < length ks
                  \<and> filter (is_fd cfg fd) (map str_of ks) = [str_of (ks ! j)]
                  \<and> take 1 (filter (is_fd cfg fd) (map str_of ps)) = [str_of (ks ! j)]
                  \<and> fd_present l' =
                      (sudo_strtonum cfg (drop 18 (str_of (ks ! j))) 0 INT_MAX = Some fd)"
    using scan_dedup_fd [OF sd l0(2)] l0 by (auto split: option.splits)
  note U = scan_dedup_unmanaged [OF sd]
  have pidx: "\<forall>i. preload_idx l' = Some i \<longrightarrow> i < length ks"
    using P by (auto split: option.splits)
  have iidx: "\<forall>j. intercept_idx l' = Some j \<longrightarrow> j < length ks"
    using F by (auto split: option.splits)
  from sudo_preload_dso_success_array [OF cfg alloc sl len pidx iidx]
  obtain r pad where r: "sudo_preload_dso cfg alloc (map Ptr ps @ Null # rest) d fd = Some r"
    "returned r \<noteq> Failure"
    "returned_array r = Some (map Ptr (with_fd fd l' (with_preload cfg d l' ks)) @ Null # pad)"
    by blast
  let ?outs = "with_fd fd l' (with_preload cfg d l' ks)"
  have p1: "case preload_idx l' of
        None \<Rightarrow> \<not> dso_present l' \<and> (\<forall>k\<in>set ks. \<not> is_preload cfg (str_of k))
      | Some i \<Rightarrow> i < length ks
                  \<and> filter (is_preload cfg) (map str_of ks) = [str_of (ks ! i)]
                  \<and> dso_present l' = dso_first cfg d (val_of cfg (str_of (ks ! i)))"
    using P by (auto split: option.splits)
  have p2: "case preload_idx l' of
        None \<Rightarrow> True
      | Some i \<Rightarrow> i < length ks \<and> is_preload cfg (str_of (ks ! i))"
    using P by (auto split: option.splits dest: in_filter_single)
  have f1: "case intercept_idx l' of
        None \<Rightarrow> \<not> fd_present l' \<and> (\<forall>k\<in>set ks. \<not> is_fd cfg fd (str_of k))
      | Some j \<Rightarrow> j < length ks
                  \<and> filter (is_fd cfg fd) (map str_of ks) = [str_of (ks ! j)]
                  \<and> fd_present l' =
                      (sudo_strtonum cfg (drop 18 (str_of (ks ! j))) 0 INT_MAX = Some fd)"
    using F by (auto split: option.splits)
  have f2: "case intercept_idx l' of
        None \<Rightarrow> True
      | Some j \<Rightarrow> j < length ks \<and> is_fd cfg fd (str_of (ks ! j))"
    using F by (auto split: option.splits dest: in_filter_single)
  have ep: "(case preload_idx l' of
         None \<Rightarrow> preload_entry cfg d None
       | Some i \<Rightarrow> if dso_first cfg d (val_of cfg (str_of (ks ! i))) then str_of (ks ! i)
                   else preload_entry cfg d (Some (str_of (ks ! i))))
      = expected_preload cfg d (map str_of ps)"
    using P by (auto simp: expected_preload_def filter_empty_conv
        split: option.splits dest!: take1_filter)
  have ef: "(case intercept_idx l' of
         None \<Rightarrow> fd_entry fd
       | Some j \<Rightarrow>
           if sudo_strtonum cfg (drop 18 (str_of (ks ! j))) 0 INT_MAX = Some fd
           then str_of (ks ! j) else fd_entry fd)
      = expected_fd cfg fd (map str_of ps)"
    using F by (auto simp: expected_fd_def filter_empty_conv
        split: option.splits dest!: take1_filter)
  have A: "filter (is_preload cfg) (map str_of ?outs) = [expected_preload cfg d (map str_of ps)]"
    using out_preload [OF np p1 f2] ep by simp
  have B: "fd \<noteq> - 1 \<longrightarrow>
      filter (is_fd cfg fd) (map str_of ?outs) = [expected_fd cfg fd (map str_of ps)]"
    using out_fd [OF np _ p2 f1, of d] ef by simp
  have C: "filter (unmanaged cfg fd) (map str_of ?outs)
      = filter (unmanaged cfg fd) (map str_of ps)"
    using out_unmanaged [OF p2 f2 np, of d] U by simp
  have D: "map str_of ?outs = map str_of ps"
    if one: "\<exists>q. filter (is_preload cfg) (map str_of ps) = [q]
                    \<and> dso_first cfg d (val_of cfg q)"
      and fdone: "fd \<noteq> - 1 \<longrightarrow>
                    (\<exists>g. filter (is_fd cfg fd) (map str_of ps) = [g]
                       \<and> (g = fd_entry fd
                            \<or> sudo_strtonum cfg (drop 18 g) 0 INT_MAX = Some fd))"
  proof -
    obtain q where q: "filter (is_preload cfg) (map str_of ps) = [q]"
      "dso_first cfg d (val_of cfg q)"
      using one by blast
    have "length (filter (is_preload cfg) (map str_of ps)) = length [q]"
      using q(1) by (rule arg_cong)
    then have pl: "length (filter (is_preload cfg) (map str_of ps)) \<le> 1" by simp
    have fl: "length (filter (is_fd cfg fd) (map str_of ps)) \<le> 1"
    proof (cases "fd = - 1")
      case True
      then show ?thesis by (simp add: is_fd_def)
    next
      case False
      then obtain g where "filter (is_fd cfg fd) (map str_of ps) = [g]" using fdone by blast
      then have "length (filter (is_fd cfg fd) (map str_of ps)) = length [g]"
        by (rule arg_cong)
      then show ?thesis by simp
    qed
    have keep: "ks = ps"
    proof (rule scan_dedup_keep [OF sd])
      show "if preload_idx ?l0 \<noteq> None then \<forall>e\<in>set ps. \<not> is_preload cfg (str_of e)
         else length (filter (is_preload cfg) (map str_of ps)) \<le> 1"
        using pl l0 by simp
      show "if intercept_idx ?l0 \<noteq> None then \<forall>e\<in>set ps. \<not> is_fd cfg fd (str_of e)
         else length (filter (is_fd cfg fd) (map str_of ps)) \<le> 1"
        using fl l0 by simp
    qed
    have dp: "dso_present l'"
      using P q keep
      by (auto simp: filter_empty_conv split: option.splits if_splits)
    have wp: "with_preload cfg d l' ks = ks"
      using dp by (simp add: with_preload_def)
    show ?thesis
    proof (cases "\<not> fd_present l' \<and> fd \<noteq> - 1")
      case False
      then show ?thesis using wp keep by (auto simp: with_fd_def)
    next
      case True
      then obtain g where g: "filter (is_fd cfg fd) (map str_of ps) = [g]"
        "g = fd_entry fd \<or> sudo_strtonum cfg (drop 18 g) 0 INT_MAX = Some fd"
        using fdone by blast
      then obtain j where j: "intercept_idx l' = Some j" "j < length ks"
        "filter (is_fd cfg fd) (map str_of ks) = [str_of (ks ! j)]"
        "sudo_strtonum cfg (drop 18 (str_of (ks ! j))) 0 INT_MAX \<noteq> Some fd"
        using F True keep by (auto simp: filter_empty_conv split: option.splits)
      have "str_of (ks ! j) = fd_entry fd"
        using g j keep by auto
      then have "(map str_of ks)[j := fd_entry fd] = map str_of ks"
        using j(2) by (metis length_map list_update_id nth_map)
      then show ?thesis
        using True j wp keep by (simp add: with_fd_def map_update)
    qed
  qed
  from r A B C D show ?thesis by blast
qed

lemma handed_over_ptrs:
  "handed_over (map Ptr outs @ Null # pad)
     = map Ptr (map (\<lambda>p. Str (str_of p)) outs) @ Null # handed_over pad"
  by (simp add: handed_over_def)

lemma dso_first_expected_preload:
  "dso_first cfg d (val_of cfg (expected_preload cfg d es))"
  by (auto simp: expected_preload_def dso_first_entry split: list.splits)

lemma expected_fd_cases:
  "expected_fd cfg fd es = fd_entry fd
   \<or> sudo_strtonum cfg (drop 18 (expected_fd cfg fd es)) 0 INT_MAX = Some fd"
  by (auto simp: expected_fd_def split: list.splits)

section \<open>A call that fails\<close>










section \<open>Properties of \<^verbatim>\<open>sudo_preload_dso\<close>\<close>

subsection \<open>Failure and the array of the caller\<close>




text \<open>
  When the base environment holds both variables, no copy is made and the new preload
  string is stored in the array of the caller (line 175).  If the allocation of line 187
  fails then, \<^verbatim>\<open>oom\<close> frees the string and the array of the caller is left with a
  pointer to freed memory.
\<close>

lemma sudo_preload_dso_failure_dangling:
  "sudo_preload_dso linux (\<lambda>b. b \<noteq> Fdstr)
     (env_array [''LD_PRELOAD=a'', ''SUDO_INTERCEPT_FD=5''] []) ''/l.so'' 7
   = Some \<lparr>returned = Failure,
           caller_array = [Ptr (Own Preload ''LD_PRELOAD=/l.so:a''),
                           Ptr (Str ''SUDO_INTERCEPT_FD=5''), Null],
           new_array = None, still_allocated = []\<rparr>
   \<and> dangling [] (Ptr (Own Preload ''LD_PRELOAD=/l.so:a''))"
  by code_simp

subsection \<open>Duplicates of the managed variables\<close>




subsection \<open>A second call on the result of the first\<close>

text \<open>
  C8: a second call with the same \<^verbatim>\<open>dso_file\<close> and \<^verbatim>\<open>intercept_fd\<close> on the environment
  that a first call returned is to give an equivalent environment, with one entry for the
  preload variable, at most one for the descriptor, and no managed entry duplicated
  again.  The code does not do so.  After a duplicate is removed (lines 97--99) the
  \<^verbatim>\<open>continue\<close> of line 101 lets the counter move on, so the entry that took the place of
  the duplicate is never looked at.  With three \<^verbatim>\<open>LD_PRELOAD\<close> entries the first call
  leaves two of them; the second call removes the second one, does not look at the
  \<^verbatim>\<open>SUDO_INTERCEPT_FD\<close> entry that follows it, and adds a second entry for the
  descriptor.
\<close>

theorem sudo_preload_dso_twice_reduplicates:
  "map_option env_of (preload_env linux (\<lambda>b. True)
       (env_array [''LD_PRELOAD=a'', ''LD_PRELOAD=b'', ''LD_PRELOAD=c''] []) ''/l.so'' 7)
     = Some (Some [''LD_PRELOAD=/l.so:a'', ''LD_PRELOAD=c'', ''SUDO_INTERCEPT_FD=7''])
   \<and> map_option env_of
       (Option.bind
          (preload_env linux (\<lambda>b. True)
             (env_array [''LD_PRELOAD=a'', ''LD_PRELOAD=b'', ''LD_PRELOAD=c''] []) ''/l.so'' 7)
          (\<lambda>a1. preload_env linux (\<lambda>b. True) a1 ''/l.so'' 7))
     = Some (Some [''LD_PRELOAD=/l.so:a'', ''SUDO_INTERCEPT_FD=7'', ''SUDO_INTERCEPT_FD=7''])"
  by code_simp

text \<open>
  Where every duplicate is followed by an unmanaged entry the second call changes
  nothing: both calls give the same environment, with one entry for the preload variable
  in which \<^verbatim>\<open>dso_file\<close> is first, one entry for the descriptor when \<^verbatim>\<open>intercept_fd\<close> is
  not -1, and the unmanaged entries of the base environment in their order.
\<close>

theorem sudo_preload_dso_idempotent:
  assumes "RTLD_PRELOAD_ENABLE_VAR cfg = None" and "PATH_ASAN_LIB cfg = None"
    and "\<not> is_preload cfg (fd_entry fd)"
    and "\<forall>b. alloc b"
    and "slip_free cfg fd False False es"
  shows "\<exists>a1 a2 out.
           preload_env cfg alloc (env_array es rest) dso fd = Some a1
         \<and> preload_env cfg alloc a1 dso fd = Some a2
         \<and> env_of a1 = Some out \<and> env_of a2 = Some out
         \<and> (\<exists>q. filter (is_preload cfg) out = [q] \<and> dso_first cfg dso (val_of cfg q))
         \<and> (fd \<noteq> - 1 \<longrightarrow> filter (is_fd cfg fd) out = [expected_fd cfg fd es])
         \<and> filter (unmanaged cfg fd) out = filter (unmanaged cfg fd) es"
proof -
  have sf: "slip_free cfg fd False False (map str_of (map Str es))"
    using assms(5) by (simp add: comp_def)
  from preload_build [OF assms(1-4) sf, of rest dso]
  obtain r pad outs where r:
    "sudo_preload_dso cfg alloc (map Ptr (map Str es) @ Null # rest) dso fd = Some r"
    "returned_array r = Some (map Ptr outs @ Null # pad)"
    "filter (is_preload cfg) (map str_of outs) = [expected_preload cfg dso es]"
    "fd \<noteq> - 1 \<longrightarrow> filter (is_fd cfg fd) (map str_of outs) = [expected_fd cfg fd es]"
    "filter (unmanaged cfg fd) (map str_of outs) = filter (unmanaged cfg fd) es"
    by (auto simp: comp_def)
  let ?out = "map str_of outs"
  let ?ps = "map (\<lambda>p. Str (str_of p)) outs"
  let ?a1 = "map Ptr ?ps @ Null # handed_over pad"
  have ps: "map str_of ?ps = ?out" by (simp add: comp_def)
  have a1: "preload_env cfg alloc (env_array es rest) dso fd = Some ?a1"
    using r(1,2) by (simp add: preload_env_def env_array_ptrs handed_over_ptrs)
  have "length (filter (is_preload cfg) ?out) = length [expected_preload cfg dso es]"
    using r(3) by (rule arg_cong)
  then have pl: "length (filter (is_preload cfg) ?out) \<le> 1" by simp
  have fl: "length (filter (is_fd cfg fd) ?out) \<le> 1"
  proof (cases "fd = - 1")
    case True
    then show ?thesis by (simp add: is_fd_def)
  next
    case False
    then have "length (filter (is_fd cfg fd) ?out) = length [expected_fd cfg fd es]"
      using r(4) by (simp del: length_filter_map)
    then show ?thesis by simp
  qed
  have sf2: "slip_free cfg fd False False (map str_of ?ps)"
    unfolding ps by (rule dup_free_slip_free) (use pl fl in simp_all)
  from preload_build [OF assms(1-4) sf2, of "handed_over pad" dso]
  obtain r2 pad2 outs2 where r2:
    "sudo_preload_dso cfg alloc ?a1 dso fd = Some r2"
    "returned_array r2 = Some (map Ptr outs2 @ Null # pad2)"
    "((\<exists>q. filter (is_preload cfg) ?out = [q] \<and> dso_first cfg dso (val_of cfg q))
       \<and> (fd \<noteq> - 1 \<longrightarrow>
            (\<exists>g. filter (is_fd cfg fd) ?out = [g]
               \<and> (g = fd_entry fd \<or> sudo_strtonum cfg (drop 18 g) 0 INT_MAX = Some fd))))
      \<longrightarrow> map str_of outs2 = ?out"
    unfolding ps by blast
  have same: "map str_of outs2 = ?out"
    using r2(3) r(3,4) dso_first_expected_preload [of cfg dso es] expected_fd_cases [of cfg fd es]
    by blast
  have a2: "preload_env cfg alloc ?a1 dso fd = Some (map Ptr (map (\<lambda>p. Str (str_of p)) outs2)
      @ Null # handed_over pad2)"
    using r2(1,2) by (simp add: preload_env_def handed_over_ptrs)
  have e1: "env_of ?a1 = Some ?out"
    using env_of_append [of ?ps "Null # handed_over pad"] by (simp add: comp_def)
  have e2: "env_of (map Ptr (map (\<lambda>p. Str (str_of p)) outs2) @ Null # handed_over pad2)
      = Some ?out"
    using same env_of_append [of "map (\<lambda>p. Str (str_of p)) outs2" "Null # handed_over pad2"]
    by (simp add: comp_def)
  from a1 a2 e1 e2 r(3,4,5) dso_first_expected_preload [of cfg dso es]
  show ?thesis by blast
qed

theorem sudo_preload_dso_idempotent_witness:
  "\<exists>a1 a2 out. preload_env linux (\<lambda>b. True)
        (env_array [''LD_PRELOAD=a'', ''LD_PRELOAD=b'', ''X=1''] []) ''/l.so'' 7 = Some a1
      \<and> preload_env linux (\<lambda>b. True) a1 ''/l.so'' 7 = Some a2
      \<and> env_of a1 = Some out \<and> env_of a2 = Some out
      \<and> filter (unmanaged linux 7) out = [''X=1'']"
proof -
  let ?es = "[''LD_PRELOAD=a'', ''LD_PRELOAD=b'', ''X=1'']"
  have 1: "RTLD_PRELOAD_ENABLE_VAR linux = None" "PATH_ASAN_LIB linux = None"
    by (simp_all add: linux_def)
  have 2: "\<not> is_preload linux (fd_entry 7)" by code_simp
  have 3: "slip_free linux 7 False False ?es" by code_simp
  have 4: "filter (unmanaged linux 7) ?es = [''X=1'']" by code_simp
  show ?thesis
    using sudo_preload_dso_idempotent [of linux 7 "\<lambda>b. True" ?es "[]" "''/l.so''",
        OF 1 2 _ 3]
    unfolding 4 by auto
qed

end
